theory Spec2Isabelle
  imports Complex_Main "HOL-Library.Char_ord" "HOL-Library.List_Lexorder"
    "HOL-Library.Product_Lexorder" "HOL-Library.AList"
begin

section \<open>Data frames\<close>

text \<open>
  The predictive-maintenance pipeline (\<^verbatim>\<open>pipeline.py\<close>, \<^verbatim>\<open>anomaly_detection.py\<close>) works on
  pandas data frames. A frame is modelled as its column index (name and dtype of every
  column) and its rows in positional order. A float cell of a sensor column, or of a
  column derived from one by cleaning or feature engineering, is a \<open>real option\<close>: \<open>None\<close>
  is NaN (a missing value), \<open>Some x\<close> a number; input files with infinities are outside the
  model, and sums, differences and products are over the reals. The one operation of the
  pipeline that makes an infinity of numbers is the division of the z-score: a quotient
  is a \<open>float\<close>, which has the two infinities, and the z-score columns are columns of
  quotients (dtype \<open>Quotient\<close>, kept in \<open>score\<close>).

  A row carries the two key columns the code groups and sorts by, the float columns by
  name and the boolean columns by name. Whether a column is present, and at which dtype,
  is recorded in \<open>columns\<close>; reading an absent column is a \<open>KeyError\<close>, as in pandas.
  pandas converts between some dtypes silently; the model does not, and reading a column
  at another dtype than it has is a \<open>TypeError\<close>. The row labels (the pandas index) are
  not modelled: all operations of the pipeline align rows by position.

  The pandas operations themselves are library code and are written down here from
  their documented behaviour: \<^verbatim>\<open>drop_duplicates\<close> keeps the first occurrence,
  \<^verbatim>\<open>sort_values\<close> on a list of keys is stable, \<^verbatim>\<open>mean\<close>, \<^verbatim>\<open>std\<close> and \<^verbatim>\<open>quantile\<close> skip NaN,
  \<^verbatim>\<open>std\<close> is the sample deviation, \<^verbatim>\<open>quantile\<close> interpolates linearly, and a
  comparison with NaN is false.

  Every stage is given twice. First as a function on frames, which yields the table the
  Python function returns for a given table, or the exception it raises; the properties
  of the values are proved of these. Then, in the last section of the definitions, as a
  procedure on a store of frame objects with a log, statement by statement, for the
  properties that are about copies and about independence of the program state; each
  procedure is proved to return the value of the function.
\<close>

datatype dtype = Float | Quotient | Bool | Datetime | Object

datatype float = NaN | Finite real | PosInf | NegInf

record row =
  timestamp :: int
  machine_id :: string
  num :: "string \<Rightarrow> real option"
  score :: "string \<Rightarrow> float"
  flag :: "string \<Rightarrow> bool"

record frame =
  columns :: "(string \<times> dtype) list"
  rows :: "row list"

text \<open>The exceptions the pipeline can raise. A \<open>ValueError\<close> is told apart by its message:
  the one \<open>load_data\<close> raises itself, with the set of missing columns; the one
  \<^verbatim>\<open>pd.read_csv\<close> raises for a \<^verbatim>\<open>parse_dates\<close> column the file does not have; and the one
  \<^verbatim>\<open>pd.concat\<close> raises inside a grouped transform of a frame without rows.
  \<open>EmptyDataError\<close> and \<open>ParserError\<close> are what \<^verbatim>\<open>pd.read_csv\<close> raises on a file it cannot
  parse.\<close>

datatype message =
    Missing_columns "string set"
  | Missing_parse_dates string
  | No_objects_to_concatenate

datatype error =
    FileNotFoundError string
  | ValueError message
  | KeyError string
  | TypeError string
  | EmptyDataError
  | ParserError string

definition get_col :: "frame \<Rightarrow> string \<Rightarrow> dtype \<Rightarrow> (row \<Rightarrow> 'a) \<Rightarrow> error + 'a list" where
  "get_col df c t f =
     (case map_of (columns df) c of
        None \<Rightarrow> Inl (KeyError c)
      | Some t' \<Rightarrow> if t' = t then Inr (map f (rows df)) else Inl (TypeError c))"

definition get_num :: "frame \<Rightarrow> string \<Rightarrow> error + real option list" where
  "get_num df c = get_col df c Float (\<lambda>r. num r c)"

definition get_flag :: "frame \<Rightarrow> string \<Rightarrow> error + bool list" where
  "get_flag df c = get_col df c Bool (\<lambda>r. flag r c)"

definition get_machine_id :: "frame \<Rightarrow> error + string list" where
  "get_machine_id df = get_col df ''machine_id'' Object machine_id"

definition get_timestamp :: "frame \<Rightarrow> error + int list" where
  "get_timestamp df = get_col df ''timestamp'' Datetime timestamp"

text \<open>\<^verbatim>\<open>df[c] = values\<close>: an existing column is overwritten in place, a new one is
  appended to the column index.\<close>

definition set_num :: "string \<Rightarrow> real option list \<Rightarrow> frame \<Rightarrow> frame" where
  "set_num c vs df =
     df\<lparr>columns := AList.update c Float (columns df),
        rows := map2 (\<lambda>r v. r\<lparr>num := (num r)(c := v)\<rparr>) (rows df) vs\<rparr>"

definition set_score :: "string \<Rightarrow> float list \<Rightarrow> frame \<Rightarrow> frame" where
  "set_score c vs df =
     df\<lparr>columns := AList.update c Quotient (columns df),
        rows := map2 (\<lambda>r v. r\<lparr>score := (score r)(c := v)\<rparr>) (rows df) vs\<rparr>"

definition set_flag :: "string \<Rightarrow> bool list \<Rightarrow> frame \<Rightarrow> frame" where
  "set_flag c bs df =
     df\<lparr>columns := AList.update c Bool (columns df),
        rows := map2 (\<lambda>r b. r\<lparr>flag := (flag r)(c := b)\<rparr>) (rows df) bs\<rparr>"

section \<open>Series operations\<close>

fun dropna :: "real option list \<Rightarrow> real list" where
  "dropna [] = []"
| "dropna (None # xs) = dropna xs"
| "dropna (Some x # xs) = x # dropna xs"

text \<open>\<^verbatim>\<open>Series.mean()\<close> skips NaN and is NaN on a series without a number.\<close>

definition mean :: "real option list \<Rightarrow> real option" where
  "mean xs = (let v = dropna xs in
     if v = [] then None else Some (sum_list v / real (length v)))"

text \<open>\<^verbatim>\<open>Series.var()\<close> and \<^verbatim>\<open>Series.std()\<close>: the sample statistics (one delta degree of
  freedom), NaN on fewer than two numbers.\<close>

definition var :: "real option list \<Rightarrow> real option" where
  "var xs = (let v = dropna xs; n = length v in
     if n < 2 then None
     else let m = sum_list v / real n in
       Some (sum_list (map (\<lambda>x. (x - m)\<^sup>2) v) / real (n - 1)))"

definition std :: "real option list \<Rightarrow> real option" where
  "std xs = map_option sqrt (var xs)"

text \<open>\<^verbatim>\<open>Series.fillna(c)\<close>; filling with NaN changes nothing.\<close>

definition fillna :: "real option \<Rightarrow> real option list \<Rightarrow> real option list" where
  "fillna c = map (\<lambda>v. case v of None \<Rightarrow> c | Some x \<Rightarrow> Some x)"

text \<open>\<^verbatim>\<open>Series.replace(z, np.nan)\<close>.\<close>

definition replace_nan :: "real \<Rightarrow> real option list \<Rightarrow> real option list" where
  "replace_nan z = map (\<lambda>v. if v = Some z then None else v)"

fun fsub :: "real option \<Rightarrow> real option \<Rightarrow> real option" where
  "fsub (Some x) (Some y) = Some (x - y)"
| "fsub _ _ = None"

text \<open>The float division of numpy: a number divided by zero is an infinity with the
  sign of the number, zero by zero is NaN, and nothing is raised. (The divisors of the
  pipeline are a standard deviation and a row count, so the zero is never negative.)\<close>

fun fdiv :: "real option \<Rightarrow> real option \<Rightarrow> float" where
  "fdiv (Some x) (Some y) =
     (if y \<noteq> 0 then Finite (x / y)
      else if 0 < x then PosInf else if x < 0 then NegInf else NaN)"
| "fdiv _ _ = NaN"

text \<open>\<^verbatim>\<open>fillna(c)\<close> and the product with a number, on quotients.\<close>

definition fillna_float :: "float \<Rightarrow> float list \<Rightarrow> float list" where
  "fillna_float c = map (\<lambda>v. if v = NaN then c else v)"

fun ftimes :: "float \<Rightarrow> real \<Rightarrow> float" where
  "ftimes (Finite x) y = Finite (x * y)"
| "ftimes PosInf y = (if 0 < y then PosInf else if y < 0 then NegInf else NaN)"
| "ftimes NegInf y = (if 0 < y then NegInf else if y < 0 then PosInf else NaN)"
| "ftimes NaN y = NaN"

text \<open>\<^verbatim>\<open>df.groupby(key)[col]\<close>: the values of the rows whose key is \<open>k\<close>, in row order,
  and \<^verbatim>\<open>.transform(agg)\<close>, which gives every row the aggregate of its own group.\<close>

definition group_values :: "string list \<Rightarrow> 'a list \<Rightarrow> string \<Rightarrow> 'a list" where
  "group_values ks vs k = map snd (filter (\<lambda>p. fst p = k) (zip ks vs))"

definition transform_agg :: "('a list \<Rightarrow> 'b) \<Rightarrow> string list \<Rightarrow> 'a list \<Rightarrow> 'b list" where
  "transform_agg f ks vs = map (\<lambda>k. f (group_values ks vs k)) ks"

section \<open>Z-score scorer (\<^verbatim>\<open>anomaly_detection.py\<close>)\<close>

definition Z_THRESHOLD :: real where
  "Z_THRESHOLD = 3.0"

definition IQR_MULTIPLIER :: real where
  "IQR_MULTIPLIER = 1.5"

definition SENSOR_COLS :: "string list" where
  "SENSOR_COLS = [''temperature_c'', ''vibration_mm_s'', ''pressure_bar'', ''cycle_time_s'']"

text \<open>\<^verbatim>\<open>grp.transform("mean")\<close> and \<^verbatim>\<open>grp.transform("std")\<close> are pandas' float64 aggregates
  of a group. Whether the deviation of a group is exactly zero, and whether the mean of
  equal values is exactly that value, is a matter of their rounding, which the statistics
  over the reals above do not have, and on which the divisor guard of the scorer
  depends. The scorer is therefore modelled over the two group aggregates as they are,
  whatever they are: \<open>agg\<close>. The statistics over the reals are one instance.\<close>

record aggregates =
  group_mean :: "real option list \<Rightarrow> real option"
  group_std :: "real option list \<Rightarrow> real option"

definition exact :: aggregates where
  "exact = \<lparr>group_mean = mean, group_std = std\<rparr>"

text \<open>The right-hand side of the assignment in the loop of \<^verbatim>\<open>compute_z_scores\<close>:
  \<^verbatim>\<open>((df[col] - grp.transform("mean")) / grp.transform("std").replace(0, np.nan)).fillna(0)\<close>
  with \<^verbatim>\<open>grp = df.groupby("machine_id")[col]\<close>. The sensor column is read as a column of numbers;
  a list of sensors in which one is the \<open>_zscore\<close> column of another, so that the scorer
  would score its own scores, is outside the model (reading that column is a \<open>TypeError\<close>
  here).\<close>

definition zscore_column :: "aggregates \<Rightarrow> frame \<Rightarrow> string \<Rightarrow> error + float list" where
  "zscore_column agg df col =
     (case get_machine_id df of
        Inl e \<Rightarrow> Inl e
      | Inr ks \<Rightarrow>
          (case get_num df col of
             Inl e \<Rightarrow> Inl e
           | Inr vs \<Rightarrow>
               Inr (fillna_float (Finite 0)
                      (map2 fdiv (map2 fsub vs (transform_agg (group_mean agg) ks vs))
                                 (replace_nan 0 (transform_agg (group_std agg) ks vs))))))"

fun compute_z_scores :: "aggregates \<Rightarrow> frame \<Rightarrow> string list \<Rightarrow> error + frame" where
  "compute_z_scores agg df [] = Inr df"
| "compute_z_scores agg df (col # cols) =
     (case zscore_column agg df col of
        Inl e \<Rightarrow> Inl e
      | Inr z \<Rightarrow> compute_z_scores agg (set_score (col @ ''_zscore'') z df) cols)"

text \<open>\<^verbatim>\<open>df[zscore_cols]\<close> needs every listed column, and a float column is read as it is:
  a column of quotients, or a column of numbers.\<close>

definition cell :: "frame \<Rightarrow> row \<Rightarrow> string \<Rightarrow> float" where
  "cell df r c =
     (case map_of (columns df) c of
        Some Quotient \<Rightarrow> score r c
      | _ \<Rightarrow> (case num r c of None \<Rightarrow> NaN | Some x \<Rightarrow> Finite x))"

fun check_float :: "frame \<Rightarrow> string list \<Rightarrow> error + unit" where
  "check_float df [] = Inr ()"
| "check_float df (c # cs) =
     (case map_of (columns df) c of
        None \<Rightarrow> Inl (KeyError c)
      | Some t \<Rightarrow> if t = Float \<or> t = Quotient then check_float df cs else Inl (TypeError c))"

text \<open>\<^verbatim>\<open>abs(z) > threshold\<close>; a comparison with NaN is false, and an infinity is above
  every threshold.\<close>

fun abs_gt :: "float \<Rightarrow> real \<Rightarrow> bool" where
  "abs_gt (Finite z) t = (\<bar>z\<bar> > t)"
| "abs_gt NaN t = False"
| "abs_gt PosInf t = True"
| "abs_gt NegInf t = True"

definition flag_zscore_anomalies :: "frame \<Rightarrow> string list \<Rightarrow> real \<Rightarrow> error + frame" where
  "flag_zscore_anomalies df cols threshold =
     (let zscore_cols = map (\<lambda>c. c @ ''_zscore'') cols in
      case check_float df zscore_cols of
        Inl e \<Rightarrow> Inl e
      | Inr _ \<Rightarrow>
          Inr (set_flag ''anomaly_zscore''
                 (map (\<lambda>r. list_ex (\<lambda>c. abs_gt (cell df r c) threshold) zscore_cols) (rows df))
                 df))"

section \<open>Cleaning stage (\<^verbatim>\<open>pipeline.py\<close>)\<close>

definition and_then :: "error + 'a \<Rightarrow> ('a \<Rightarrow> error + 'b) \<Rightarrow> error + 'b" where
  "and_then r f = (case r of Inl e \<Rightarrow> Inl e | Inr x \<Rightarrow> f x)"

text \<open>\<^verbatim>\<open>VALUE_RANGES\<close>, a dict in insertion order: sensor, lower bound, upper bound.\<close>

definition VALUE_RANGES :: "(string \<times> real \<times> real) list" where
  "VALUE_RANGES =
     [(''temperature_c'', 0.0, 200.0),
      (''vibration_mm_s'', 0.0, 50.0),
      (''pressure_bar'', 0.0, 30.0),
      (''cycle_time_s'', 0.1, 120.0),
      (''operating_hours'', 0.0, 100000.0)]"

definition WINDOW_SIZE :: nat where
  "WINDOW_SIZE = 10"

text \<open>\<^verbatim>\<open>numeric_cols = list(VALUE_RANGES.keys())\<close>\<close>

definition numeric_cols :: "string list" where
  "numeric_cols = map fst VALUE_RANGES"

text \<open>\<^verbatim>\<open>drop_duplicates(subset=..., keep="first")\<close>: a row stays unless an earlier row
  has its key.\<close>

fun drop_dups :: "('a \<Rightarrow> 'k) \<Rightarrow> 'a list \<Rightarrow> 'a list" where
  "drop_dups key [] = []"
| "drop_dups key (x # xs) = x # drop_dups key (filter (\<lambda>y. key y \<noteq> key x) xs)"

text \<open>\<^verbatim>\<open>df.drop_duplicates(subset=["timestamp", "machine_id"], inplace=True)\<close>\<close>

definition drop_duplicates :: "frame \<Rightarrow> error + frame" where
  "drop_duplicates df =
     and_then (get_timestamp df) (\<lambda>_.
     and_then (get_machine_id df) (\<lambda>_.
       Inr (df\<lparr>rows := drop_dups (\<lambda>r. (timestamp r, machine_id r)) (rows df)\<rparr>)))"

text \<open>\<^verbatim>\<open>df.sort_values(["machine_id", "timestamp"])\<close>: pandas sorts on several keys with
  a stable lexicographic sort, so rows with equal keys keep their order; \<open>sort_key\<close> is
  the stable insertion sort.\<close>

definition sort_values :: "frame \<Rightarrow> error + frame" where
  "sort_values df =
     and_then (get_machine_id df) (\<lambda>_.
     and_then (get_timestamp df) (\<lambda>_.
       Inr (df\<lparr>rows := sort_key (\<lambda>r. (machine_id r, timestamp r)) (rows df)\<rparr>)))"

text \<open>\<^verbatim>\<open>Series.ffill()\<close> carries the last number forward; \<^verbatim>\<open>Series.bfill()\<close> is the
  same from the end.\<close>

fun ffill_from :: "real option \<Rightarrow> real option list \<Rightarrow> real option list" where
  "ffill_from prev [] = []"
| "ffill_from prev (None # xs) = prev # ffill_from prev xs"
| "ffill_from prev (Some x # xs) = Some x # ffill_from (Some x) xs"

definition ffill :: "real option list \<Rightarrow> real option list" where
  "ffill xs = ffill_from None xs"

definition bfill :: "real option list \<Rightarrow> real option list" where
  "bfill xs = rev (ffill (rev xs))"

text \<open>\<^verbatim>\<open>groupby(key)[col].transform(f)\<close> for a function \<open>f\<close> from series to series: every
  row gets the value at its own position in the transformed series of its group.\<close>

definition transform :: "('a list \<Rightarrow> 'b list) \<Rightarrow> string list \<Rightarrow> 'a list \<Rightarrow> 'b list" where
  "transform f ks vs =
     map (\<lambda>i. f (group_values ks vs (ks ! i)) ! length (filter (\<lambda>k. k = ks ! i) (take i ks)))
       [0..<length ks]"

text \<open>One column of the right-hand side of
  \<^verbatim>\<open>df[numeric_cols] = df.groupby("machine_id")[numeric_cols]
      .transform(lambda s: s.ffill().bfill()).fillna(df[numeric_cols].mean())\<close>:
  the column mean is taken over all machines, before anything is filled.\<close>

definition fill_series :: "string list \<Rightarrow> real option list \<Rightarrow> real option list" where
  "fill_series ks vs = fillna (mean vs) (transform (\<lambda>s. bfill (ffill s)) ks vs)"

definition filled_column :: "frame \<Rightarrow> string \<Rightarrow> error + real option list" where
  "filled_column df c =
     and_then (get_machine_id df) (\<lambda>ks.
     and_then (get_num df c) (\<lambda>vs. Inr (fill_series ks vs)))"

text \<open>The assignment itself: every right-hand column is computed from the frame as it
  was before the assignment (\<open>src\<close>).\<close>

fun fill_columns :: "frame \<Rightarrow> string list \<Rightarrow> frame \<Rightarrow> error + frame" where
  "fill_columns src [] df = Inr df"
| "fill_columns src (c # cs) df =
     and_then (filled_column src c) (\<lambda>v. fill_columns src cs (set_num c v df))"

text \<open>\<^verbatim>\<open>df[cols]\<close> on a list of names needs every listed column.\<close>

fun check_columns :: "frame \<Rightarrow> string list \<Rightarrow> error + unit" where
  "check_columns df [] = Inr ()"
| "check_columns df (c # cs) =
     (case map_of (columns df) c of None \<Rightarrow> Inl (KeyError c) | Some _ \<Rightarrow> check_columns df cs)"

text \<open>The whole statement. \<^verbatim>\<open>df.groupby("machine_id")[numeric_cols]\<close> looks up the key and
  the columns; \<^verbatim>\<open>.transform(f)\<close> with a Python function \<open>f\<close> on a selection of several
  columns applies \<open>f\<close> group by group and concatenates the results, and on a frame
  without rows there is no group and \<^verbatim>\<open>pd.concat\<close> raises
  \<^verbatim>\<open>ValueError("No objects to concatenate")\<close>. (The transforms of \<open>engineer_features\<close> and
  of the scorer are on one column, or by the name of an aggregate, and return an empty
  series there.)\<close>

definition fill_missing :: "frame \<Rightarrow> error + frame" where
  "fill_missing df =
     and_then (get_machine_id df) (\<lambda>_.
     and_then (check_columns df numeric_cols) (\<lambda>_.
       if rows df = [] then Inl (ValueError No_objects_to_concatenate)
       else fill_columns df numeric_cols df))"

text \<open>\<^verbatim>\<open>Series.clip(lower=lo, upper=hi)\<close>; NaN stays NaN.\<close>

definition clip :: "real \<Rightarrow> real \<Rightarrow> real option list \<Rightarrow> real option list" where
  "clip lo hi = map (map_option (\<lambda>x. min (max x lo) hi))"

text \<open>\<^verbatim>\<open>for col, (lo, hi) in VALUE_RANGES.items(): df[col] = df[col].clip(lower=lo, upper=hi)\<close>\<close>

fun clip_columns :: "frame \<Rightarrow> (string \<times> real \<times> real) list \<Rightarrow> error + frame" where
  "clip_columns df [] = Inr df"
| "clip_columns df ((col, lo, hi) # ranges) =
     and_then (get_num df col) (\<lambda>vs. clip_columns (set_num col (clip lo hi vs) df) ranges)"

definition clean_data :: "frame \<Rightarrow> error + frame" where
  "clean_data df =
     and_then (drop_duplicates df) (\<lambda>df.
     and_then (sort_values df) (\<lambda>df.
     and_then (fill_missing df) (\<lambda>df.
       clip_columns df VALUE_RANGES)))"

section \<open>Feature stage (\<^verbatim>\<open>pipeline.py\<close>)\<close>

text \<open>\<^verbatim>\<open>s.rolling(w, min_periods=1)\<close>: the trailing window ending at position \<open>i\<close>, of at
  most \<open>w\<close> values; the aggregate skips NaN, and the result is NaN where the window has
  too few numbers for it (none for the mean, fewer than two for the standard deviation).\<close>

definition window :: "nat \<Rightarrow> 'a list \<Rightarrow> nat \<Rightarrow> 'a list" where
  "window w xs i = drop (Suc i - w) (take (Suc i) xs)"

definition rolling :: "nat \<Rightarrow> (real option list \<Rightarrow> real option) \<Rightarrow> real option list \<Rightarrow> real option list" where
  "rolling w agg xs = map (\<lambda>i. agg (window w xs i)) [0..<length xs]"

text \<open>\<^verbatim>\<open>s.diff()\<close>: NaN on the first position, and wherever one of the two values is NaN.\<close>

fun diff :: "real option list \<Rightarrow> real option list" where
  "diff [] = []"
| "diff (x # xs) = None # map2 fsub xs (x # xs)"

text \<open>One pass of the loop body of \<open>engineer_features\<close>; \<^verbatim>\<open>grp\<close> is
  \<^verbatim>\<open>df.groupby("machine_id")[col]\<close>, and none of the three new columns is \<open>col\<close> itself.\<close>

fun add_features :: "frame \<Rightarrow> string list \<Rightarrow> error + frame" where
  "add_features df [] = Inr df"
| "add_features df (col # cols) =
     and_then (get_machine_id df) (\<lambda>ks.
     and_then (get_num df col) (\<lambda>vs.
       add_features
         (set_num (col @ ''_diff'')
            (transform (\<lambda>s. fillna (Some 0) (diff s)) ks vs)
            (set_num (col @ ''_roll_std'')
               (transform (\<lambda>s. fillna (Some 0) (rolling WINDOW_SIZE std s)) ks vs)
               (set_num (col @ ''_roll_mean'')
                  (transform (\<lambda>s. rolling WINDOW_SIZE mean s) ks vs) df)))
         cols))"

definition engineer_features :: "frame \<Rightarrow> error + frame" where
  "engineer_features df =
     and_then (sort_values df) (\<lambda>df. add_features df numeric_cols)"

section \<open>IQR scorer and combiner (\<^verbatim>\<open>anomaly_detection.py\<close>)\<close>

text \<open>\<^verbatim>\<open>Series.quantile(q)\<close> with the default linear interpolation: NaN is dropped, the
  numbers are sorted, and the value at the fractional position \<open>q \<sqdot> (n - 1)\<close> is
  interpolated between its two neighbours. NaN on a series without a number.\<close>

definition quantile :: "real option list \<Rightarrow> real \<Rightarrow> real option" where
  "quantile xs q =
     (let v = sort (dropna xs); n = length v in
      if n = 0 then None
      else let pos = q * real (n - 1); lo = nat \<lfloor>pos\<rfloor>; hi = min (lo + 1) (n - 1)
           in Some (v ! lo + (v ! hi - v ! lo) * (pos - real lo)))"

fun fadd :: "real option \<Rightarrow> real option \<Rightarrow> real option" where
  "fadd (Some x) (Some y) = Some (x + y)"
| "fadd _ _ = None"

fun fmul :: "real option \<Rightarrow> real option \<Rightarrow> real option" where
  "fmul (Some x) (Some y) = Some (x * y)"
| "fmul _ _ = None"

text \<open>A comparison with NaN is false.\<close>

fun flt :: "real option \<Rightarrow> real option \<Rightarrow> bool" where
  "flt (Some x) (Some y) = (x < y)"
| "flt _ _ = False"

text \<open>\<^verbatim>\<open>{"lower": ..., "upper": ...}\<close>\<close>

record bound =
  lower :: "real option"
  upper :: "real option"

fun iqr_bounds_loop ::
  "frame \<Rightarrow> real \<Rightarrow> string list \<Rightarrow> (string \<rightharpoonup> bound) \<Rightarrow> error + (string \<rightharpoonup> bound)" where
  "iqr_bounds_loop df multiplier [] bounds = Inr bounds"
| "iqr_bounds_loop df multiplier (col # cols) bounds =
     and_then (get_num df col) (\<lambda>vs.
       let q1 = quantile vs 0.25;
           q3 = quantile vs 0.75;
           iqr = fsub q3 q1
       in iqr_bounds_loop df multiplier cols
            (bounds(col \<mapsto> \<lparr>lower = fsub q1 (fmul (Some multiplier) iqr),
                             upper = fadd q3 (fmul (Some multiplier) iqr)\<rparr>)))"

definition compute_iqr_bounds :: "frame \<Rightarrow> string list \<Rightarrow> real \<Rightarrow> error + (string \<rightharpoonup> bound)" where
  "compute_iqr_bounds df cols multiplier = iqr_bounds_loop df multiplier cols Map.empty"

text \<open>The loop of \<open>flag_iqr_anomalies\<close> fills the frame \<^verbatim>\<open>masks\<close>, one boolean column
  per sensor; \<^verbatim>\<open>bounds[col]\<close> is read before \<^verbatim>\<open>df[col]\<close>.\<close>

fun iqr_masks ::
  "frame \<Rightarrow> (string \<rightharpoonup> bound) \<Rightarrow> string list \<Rightarrow> (string \<times> bool list) list
     \<Rightarrow> error + (string \<times> bool list) list" where
  "iqr_masks df bounds [] masks = Inr masks"
| "iqr_masks df bounds (col # cols) masks =
     (case bounds col of
        None \<Rightarrow> Inl (KeyError col)
      | Some b \<Rightarrow>
          and_then (get_num df col) (\<lambda>vs.
            iqr_masks df bounds cols
              (AList.update col (map (\<lambda>v. flt v (lower b) \<or> flt (upper b) v) vs) masks)))"

text \<open>\<^verbatim>\<open>masks.any(axis=1)\<close>\<close>

definition any_axis1 :: "nat \<Rightarrow> (string \<times> bool list) list \<Rightarrow> bool list" where
  "any_axis1 n masks = map (\<lambda>i. list_ex (\<lambda>m. snd m ! i) masks) [0..<n]"

definition flag_iqr_anomalies :: "frame \<Rightarrow> (string \<rightharpoonup> bound) \<Rightarrow> string list \<Rightarrow> error + frame" where
  "flag_iqr_anomalies df bounds cols =
     and_then (iqr_masks df bounds cols []) (\<lambda>masks.
       Inr (set_flag ''anomaly_iqr'' (any_axis1 (length (rows df)) masks) df))"

definition combined_anomaly_score :: "frame \<Rightarrow> error + frame" where
  "combined_anomaly_score df =
     and_then (get_flag df ''anomaly_zscore'') (\<lambda>z.
     and_then (get_flag df ''anomaly_iqr'') (\<lambda>i.
       Inr (set_flag ''anomaly_combined'' (map2 (\<or>) z i) df)))"

definition run_anomaly_detection :: "aggregates \<Rightarrow> frame \<Rightarrow> error + frame" where
  "run_anomaly_detection agg df =
     and_then (compute_z_scores agg df SENSOR_COLS) (\<lambda>df.
     and_then (flag_zscore_anomalies df SENSOR_COLS Z_THRESHOLD) (\<lambda>df.
     and_then (compute_iqr_bounds df SENSOR_COLS IQR_MULTIPLIER) (\<lambda>bounds.
     and_then (flag_iqr_anomalies df bounds SENSOR_COLS) (\<lambda>df.
       combined_anomaly_score df))))"

section \<open>Loading and the whole pipeline (\<^verbatim>\<open>pipeline.py\<close>, \<^verbatim>\<open>main.py\<close>)\<close>

text \<open>The file system maps the path of an existing file to its content: the table
  \<^verbatim>\<open>pd.read_csv\<close> makes of the file's header line and records (names, inferred dtypes,
  rows; a \<^verbatim>\<open>parse_dates\<close> column parsed to \<open>Datetime\<close>), or, for a file that is not such a
  table, what is wrong with it: a file without any column, on which \<^verbatim>\<open>pd.read_csv\<close> raises
  \<open>EmptyDataError\<close>, or records that do not fit the header, on which it raises
  \<open>ParserError\<close>. A path without a file maps to \<open>None\<close>.\<close>

datatype content = Table frame | No_columns | Garbled string

type_synonym files = "string \<rightharpoonup> content"

text \<open>\<^verbatim>\<open>pd.read_csv(filepath, parse_dates=cols)\<close>: a column to parse that the file does not
  have is a \<open>ValueError\<close> of pandas, which names the first such column.\<close>

definition read_csv :: "files \<Rightarrow> string \<Rightarrow> string list \<Rightarrow> error + frame" where
  "read_csv fs filepath parse_dates =
     (case fs filepath of
        None \<Rightarrow> Inl (FileNotFoundError filepath)
      | Some No_columns \<Rightarrow> Inl EmptyDataError
      | Some (Garbled s) \<Rightarrow> Inl (ParserError s)
      | Some (Table df) \<Rightarrow>
          (case filter (\<lambda>c. map_of (columns df) c = None) parse_dates of
             [] \<Rightarrow> Inr df
           | c # _ \<Rightarrow> Inl (ValueError (Missing_parse_dates c))))"

definition load_data :: "files \<Rightarrow> string \<Rightarrow> error + frame" where
  "load_data fs filepath =
     (if fs filepath = None then Inl (FileNotFoundError filepath)
      else
        and_then (read_csv fs filepath [''timestamp'']) (\<lambda>df.
          let required = {''timestamp'', ''machine_id'', ''label''} \<union> set (map fst VALUE_RANGES);
              missing = required - set (map fst (columns df))
          in if missing \<noteq> {} then Inl (ValueError (Missing_columns missing)) else Inr df))"

text \<open>\<open>run_pipeline\<close> without its export step, which writes the frame to a file and
  returns the frame unchanged; then the scoring, as \<^verbatim>\<open>main\<close> chains them.\<close>

definition run_pipeline :: "files \<Rightarrow> string \<Rightarrow> error + frame" where
  "run_pipeline fs raw_path =
     and_then (load_data fs raw_path) (\<lambda>df.
     and_then (clean_data df) (\<lambda>df.
       engineer_features df))"

definition main :: "aggregates \<Rightarrow> files \<Rightarrow> string \<Rightarrow> error + frame" where
  "main agg fs raw_path = and_then (run_pipeline fs raw_path) (run_anomaly_detection agg)"

section \<open>The stages as procedures on frame objects\<close>

text \<open>
  A Python variable holds a reference to a frame object. \<^verbatim>\<open>df.copy()\<close> and a
  \<^verbatim>\<open>sort_values\<close> without \<^verbatim>\<open>inplace\<close> make a new object; \<^verbatim>\<open>inplace=True\<close> and a column
  assignment \<^verbatim>\<open>df[c] = ...\<close> change the object they are applied to. The state is the
  store of all frame objects, addressed by their position, and what has been logged. A
  procedure returns its result or the exception it raised, and the state it leaves.
\<close>

datatype event =
    Duplicates_removed int
  | Data_cleaned nat
  | Features_done nat
  | Zscores_computed "string list"
  | Zscore_anomalies nat float
  | Iqr_bounds string "real option" "real option" "real option" "real option" "real option"
  | Iqr_anomalies nat float
  | Combined_anomalies nat float

record state =
  objects :: "frame list"
  events :: "event list"

type_synonym 'a proc = "state \<Rightarrow> (error + 'a) \<times> state"

definition return :: "'a \<Rightarrow> 'a proc" where
  "return x s = (Inr x, s)"

definition bind :: "'a proc \<Rightarrow> ('a \<Rightarrow> 'b proc) \<Rightarrow> 'b proc" where
  "bind m f s = (case m s of (Inl e, s') \<Rightarrow> (Inl e, s') | (Inr x, s') \<Rightarrow> f x s')"

text \<open>\<^verbatim>\<open>df.copy()\<close>\<close>

definition copy :: "nat \<Rightarrow> nat proc" where
  "copy a s = (Inr (length (objects s)), s\<lparr>objects := objects s @ [objects s ! a]\<rparr>)"

text \<open>An operation that returns a new frame made from the object at \<open>a\<close>.\<close>

definition new_object :: "(frame \<Rightarrow> error + frame) \<Rightarrow> nat \<Rightarrow> nat proc" where
  "new_object f a s =
     (case f (objects s ! a) of
        Inl e \<Rightarrow> (Inl e, s)
      | Inr df \<Rightarrow> (Inr (length (objects s)), s\<lparr>objects := objects s @ [df]\<rparr>))"

text \<open>An operation that changes the object at \<open>a\<close>.\<close>

definition in_place :: "(frame \<Rightarrow> error + frame) \<Rightarrow> nat \<Rightarrow> unit proc" where
  "in_place f a s =
     (case f (objects s ! a) of
        Inl e \<Rightarrow> (Inl e, s)
      | Inr df \<Rightarrow> (Inr (), s\<lparr>objects := (objects s)[a := df]\<rparr>))"

text \<open>An operation that only reads the object at \<open>a\<close>.\<close>

definition read_object :: "(frame \<Rightarrow> error + 'a) \<Rightarrow> nat \<Rightarrow> 'a proc" where
  "read_object f a s = (f (objects s ! a), s)"

text \<open>\<^verbatim>\<open>logger.info(...)\<close>, \<^verbatim>\<open>logger.debug(...)\<close>\<close>

definition log_event :: "event \<Rightarrow> unit proc" where
  "log_event e s = (Inr (), s\<lparr>events := events s @ [e]\<rparr>)"

text \<open>\<^verbatim>\<open>for x in xs: body\<close>\<close>

fun for_each :: "'x list \<Rightarrow> ('x \<Rightarrow> unit proc) \<Rightarrow> unit proc" where
  "for_each [] body = return ()"
| "for_each (x # xs) body = bind (body x) (\<lambda>_. for_each xs body)"

text \<open>\<^verbatim>\<open>len(df)\<close>, \<^verbatim>\<open>len(df.columns)\<close>, \<^verbatim>\<open>df[c].sum()\<close> of a boolean column, and the
  percentage \<^verbatim>\<open>n / len(df) * 100\<close> of the log lines (\<open>n\<close> is a numpy integer: on a frame
  without rows the quotient is NaN, not an exception).\<close>

definition len :: "frame \<Rightarrow> error + nat" where
  "len df = Inr (length (rows df))"

definition len_columns :: "frame \<Rightarrow> error + nat" where
  "len_columns df = Inr (length (columns df))"

definition sum_flag :: "string \<Rightarrow> frame \<Rightarrow> error + nat" where
  "sum_flag c df = and_then (get_flag df c) (\<lambda>bs. Inr (length (filter id bs)))"

definition percent :: "nat \<Rightarrow> nat \<Rightarrow> float" where
  "percent n count = ftimes (fdiv (Some (real n)) (Some (real count))) 100"

text \<open>The bodies of the three loops that assign columns.\<close>

definition clip_step :: "string \<times> real \<times> real \<Rightarrow> frame \<Rightarrow> error + frame" where
  "clip_step r df =
     (case r of (col, lo, hi) \<Rightarrow>
        and_then (get_num df col) (\<lambda>vs. Inr (set_num col (clip lo hi vs) df)))"

definition feature_step :: "string \<Rightarrow> frame \<Rightarrow> error + frame" where
  "feature_step col df =
     and_then (get_machine_id df) (\<lambda>ks.
     and_then (get_num df col) (\<lambda>vs.
       Inr (set_num (col @ ''_diff'')
              (transform (\<lambda>s. fillna (Some 0) (diff s)) ks vs)
              (set_num (col @ ''_roll_std'')
                 (transform (\<lambda>s. fillna (Some 0) (rolling WINDOW_SIZE std s)) ks vs)
                 (set_num (col @ ''_roll_mean'')
                    (transform (\<lambda>s. rolling WINDOW_SIZE mean s) ks vs) df)))))"

definition zscore_step :: "aggregates \<Rightarrow> string \<Rightarrow> frame \<Rightarrow> error + frame" where
  "zscore_step agg col df =
     (case zscore_column agg df col of
        Inl e \<Rightarrow> Inl e
      | Inr z \<Rightarrow> Inr (set_score (col @ ''_zscore'') z df))"

text \<open>\<open>clean_data\<close>, statement by statement.\<close>

definition clean_data_proc :: "nat \<Rightarrow> nat proc" where
  "clean_data_proc a =
     bind (copy a) (\<lambda>df.
     bind (read_object len df) (\<lambda>before.
     bind (in_place drop_duplicates df) (\<lambda>_.
     bind (read_object len df) (\<lambda>n.
     bind (log_event (Duplicates_removed (int before - int n))) (\<lambda>_.
     bind (in_place sort_values df) (\<lambda>_.
     bind (in_place fill_missing df) (\<lambda>_.
     bind (for_each VALUE_RANGES (\<lambda>r. in_place (clip_step r) df)) (\<lambda>_.
     bind (read_object len df) (\<lambda>n.
     bind (log_event (Data_cleaned n)) (\<lambda>_.
     return df))))))))))"

text \<open>\<open>engineer_features\<close>: the copy is sorted into a new frame, and that one gets the
  feature columns.\<close>

definition engineer_features_proc :: "nat \<Rightarrow> nat proc" where
  "engineer_features_proc a =
     bind (copy a) (\<lambda>c.
     bind (new_object sort_values c) (\<lambda>df.
     bind (for_each numeric_cols (\<lambda>col. in_place (feature_step col) df)) (\<lambda>_.
     bind (read_object len_columns df) (\<lambda>n.
     bind (log_event (Features_done n)) (\<lambda>_.
     return df)))))"

definition compute_z_scores_proc :: "aggregates \<Rightarrow> nat \<Rightarrow> string list \<Rightarrow> nat proc" where
  "compute_z_scores_proc agg a cols =
     bind (copy a) (\<lambda>df.
     bind (for_each cols (\<lambda>col. in_place (zscore_step agg col) df)) (\<lambda>_.
     bind (log_event (Zscores_computed cols)) (\<lambda>_.
     return df)))"

definition flag_zscore_anomalies_proc :: "nat \<Rightarrow> string list \<Rightarrow> real \<Rightarrow> nat proc" where
  "flag_zscore_anomalies_proc a cols threshold =
     bind (copy a) (\<lambda>df.
     bind (in_place (\<lambda>d. flag_zscore_anomalies d cols threshold) df) (\<lambda>_.
     bind (read_object (sum_flag ''anomaly_zscore'') df) (\<lambda>n.
     bind (read_object len df) (\<lambda>count.
     bind (log_event (Zscore_anomalies n (percent n count))) (\<lambda>_.
     return df)))))"

text \<open>\<open>compute_iqr_bounds\<close> reads its argument and fills a dict of its own.\<close>

fun iqr_bounds_loop_proc ::
  "nat \<Rightarrow> real \<Rightarrow> string list \<Rightarrow> (string \<rightharpoonup> bound) \<Rightarrow> (string \<rightharpoonup> bound) proc" where
  "iqr_bounds_loop_proc a multiplier [] bounds = return bounds"
| "iqr_bounds_loop_proc a multiplier (col # cols) bounds =
     bind (read_object (\<lambda>df. get_num df col) a) (\<lambda>vs.
       let q1 = quantile vs 0.25;
           q3 = quantile vs 0.75;
           iqr = fsub q3 q1;
           b = \<lparr>lower = fsub q1 (fmul (Some multiplier) iqr),
                upper = fadd q3 (fmul (Some multiplier) iqr)\<rparr>
       in bind (log_event (Iqr_bounds col q1 q3 iqr (lower b) (upper b))) (\<lambda>_.
            iqr_bounds_loop_proc a multiplier cols (bounds(col \<mapsto> b))))"

definition compute_iqr_bounds_proc :: "nat \<Rightarrow> string list \<Rightarrow> real \<Rightarrow> (string \<rightharpoonup> bound) proc" where
  "compute_iqr_bounds_proc a cols multiplier = iqr_bounds_loop_proc a multiplier cols Map.empty"

text \<open>\<open>flag_iqr_anomalies\<close>: \<^verbatim>\<open>masks\<close> is a table of the function's own, which nothing else
  refers to; it is kept as a value.\<close>

definition flag_iqr_anomalies_proc :: "nat \<Rightarrow> (string \<rightharpoonup> bound) \<Rightarrow> string list \<Rightarrow> nat proc" where
  "flag_iqr_anomalies_proc a bounds cols =
     bind (copy a) (\<lambda>df.
     bind (read_object (\<lambda>d. iqr_masks d bounds cols []) df) (\<lambda>masks.
     bind (in_place (\<lambda>d. Inr (set_flag ''anomaly_iqr'' (any_axis1 (length (rows d)) masks) d)) df) (\<lambda>_.
     bind (read_object (sum_flag ''anomaly_iqr'') df) (\<lambda>n.
     bind (read_object len df) (\<lambda>count.
     bind (log_event (Iqr_anomalies n (percent n count))) (\<lambda>_.
     return df))))))"

definition combined_anomaly_score_proc :: "nat \<Rightarrow> nat proc" where
  "combined_anomaly_score_proc a =
     bind (copy a) (\<lambda>df.
     bind (in_place combined_anomaly_score df) (\<lambda>_.
     bind (read_object (sum_flag ''anomaly_combined'') df) (\<lambda>n.
     bind (read_object len df) (\<lambda>count.
     bind (log_event (Combined_anomalies n (percent n count))) (\<lambda>_.
     return df)))))"

definition run_anomaly_detection_proc :: "aggregates \<Rightarrow> nat \<Rightarrow> nat proc" where
  "run_anomaly_detection_proc agg a =
     bind (compute_z_scores_proc agg a SENSOR_COLS) (\<lambda>df.
     bind (flag_zscore_anomalies_proc df SENSOR_COLS Z_THRESHOLD) (\<lambda>df.
     bind (compute_iqr_bounds_proc df SENSOR_COLS IQR_MULTIPLIER) (\<lambda>bounds.
     bind (flag_iqr_anomalies_proc df bounds SENSOR_COLS) (\<lambda>df.
       combined_anomaly_score_proc df))))"

text \<open>The frame a procedure returned, or its exception.\<close>

definition result_frame :: "(error + nat) \<times> state \<Rightarrow> error + frame" where
  "result_frame r = (case r of (Inl e, s) \<Rightarrow> Inl e | (Inr d, s) \<Rightarrow> Inr (objects s ! d))"

section \<open>Predicates and example frames of the properties\<close>

text \<open>A sensor column is constant in the partition of machine \<open>m\<close>: all numbers among
  the partition's values are equal.\<close>

definition constant_in_partition :: "frame \<Rightarrow> string \<Rightarrow> string \<Rightarrow> bool" where
  "constant_in_partition df m col =
     (case dropna (map (\<lambda>r. num r col) (filter (\<lambda>r. machine_id r = m) (rows df))) of
        [] \<Rightarrow> True
      | v # vs \<Rightarrow> list_all (\<lambda>x. x = v) vs)"

text \<open>What the guard of the scorer needs of the group deviation: of a series whose numbers
  are all equal it is zero, or NaN where the series has fewer than two numbers. Nothing
  is asked of the group mean.\<close>

definition flat_deviation :: "(real option list \<Rightarrow> real option) \<Rightarrow> bool" where
  "flat_deviation sd \<longleftrightarrow>
     (\<forall>xs v. (\<forall>x\<in>set xs. x = None \<or> x = Some v) \<longrightarrow> sd xs = Some 0 \<or> sd xs = None)"

text \<open>Aggregates with a rounded mean: it is off by \<open>10\<^sup>-\<^sup>1\<^sup>7\<close>, as the float64 mean of equal
  values can be, while the deviation of equal values is exactly zero.\<close>

definition rounded :: aggregates where
  "rounded =
     \<lparr>group_mean = (\<lambda>xs. map_option (\<lambda>m. m + 1 / 10 ^ 17) (mean xs)), group_std = std\<rparr>"

text \<open>The flat signal of \<^verbatim>\<open>test_no_anomaly_on_flat_signal\<close>, with three rows.\<close>

definition flat_signal :: frame where
  "flat_signal =
     \<lparr>columns = [(''machine_id'', Object), (''temperature_c'', Float), (''vibration_mm_s'', Float),
                 (''pressure_bar'', Float), (''cycle_time_s'', Float)],
      rows = map (\<lambda>t.
        \<lparr>timestamp = t, machine_id = ''M1'',
         num = (\<lambda>c. if c = ''temperature_c'' then Some 60 else if c = ''vibration_mm_s'' then Some 1
                    else if c = ''pressure_bar'' then Some 6 else if c = ''cycle_time_s'' then Some 12
                    else None),
         score = (\<lambda>c. NaN),
         flag = (\<lambda>c. False)\<rparr>) [0, 1, 2]\<rparr>"

text \<open>A series without a missing value, or with nothing but missing values.\<close>

definition uniform :: "real option list \<Rightarrow> bool" where
  "uniform xs \<longleftrightarrow> (\<forall>x\<in>set xs. x \<noteq> None) \<or> (\<forall>x\<in>set xs. x = None)"

text \<open>Two row lists agree on everything but the columns of numbers.\<close>

definition same_keys :: "row list \<Rightarrow> row list \<Rightarrow> bool" where
  "same_keys a b \<longleftrightarrow>
     map timestamp a = map timestamp b \<and> map machine_id a = map machine_id b \<and>
     map score a = map score b \<and> map flag a = map flag b"

text \<open>The frame has the columns the cleaning and feature stages read, at their dtypes.\<close>

definition has_sensor_schema :: "frame \<Rightarrow> bool" where
  "has_sensor_schema df \<longleftrightarrow>
     map_of (columns df) ''timestamp'' = Some Datetime \<and>
     map_of (columns df) ''machine_id'' = Some Object \<and>
     list_all (\<lambda>c. map_of (columns df) c = Some Float) numeric_cols"

text \<open>The rows that stay in \<open>clean_data\<close>, and what it leaves in a column of them.\<close>

definition dedup_sorted :: "row list \<Rightarrow> row list" where
  "dedup_sorted rs =
     sort_key (\<lambda>r. (machine_id r, timestamp r)) (drop_dups (\<lambda>r. (timestamp r, machine_id r)) rs)"

definition cleaned_column :: "row list \<Rightarrow> string \<Rightarrow> real option list" where
  "cleaned_column d c =
     (case map_of VALUE_RANGES c of
        None \<Rightarrow> map (\<lambda>r. num r c) d
      | Some (lo, hi) \<Rightarrow> clip lo hi (fill_series (map machine_id d) (map (\<lambda>r. num r c) d)))"

text \<open>The spec's wording of deduplication: sort the table by \<open>(machine_id, timestamp)\<close>,
  then keep the first row of every \<open>(timestamp, machine_id)\<close> pair.\<close>

definition first_after_sort :: "row list \<Rightarrow> row list" where
  "first_after_sort rs =
     drop_dups (\<lambda>r. (timestamp r, machine_id r)) (sort_key (\<lambda>r. (machine_id r, timestamp r)) rs)"

text \<open>The columns \<open>load_data\<close> requires, at the dtypes the spec gives them.\<close>

definition sensor_columns :: "(string \<times> dtype) list" where
  "sensor_columns =
     [(''timestamp'', Datetime), (''machine_id'', Object), (''label'', Float),
      (''temperature_c'', Float), (''vibration_mm_s'', Float), (''pressure_bar'', Float),
      (''cycle_time_s'', Float), (''operating_hours'', Float)]"

text \<open>A reading: timestamp, machine, label and one value for all five sensors.\<close>

definition reading :: "int \<Rightarrow> string \<Rightarrow> real \<Rightarrow> real option \<Rightarrow> row" where
  "reading t m l v =
     \<lparr>timestamp = t, machine_id = m,
      num = (\<lambda>c. if c = ''label'' then Some l else if c \<in> set numeric_cols then v else None),
      score = (\<lambda>c. NaN),
      flag = (\<lambda>c. False)\<rparr>"

text \<open>A table with a duplicated \<open>(timestamp, machine_id)\<close> pair, out of order, with an
  out-of-range value and missing values.\<close>

definition raw_example :: frame where
  "raw_example =
     \<lparr>columns = sensor_columns,
      rows = [reading 2 ''M2'' 10 (Some 300), reading 1 ''M1'' 11 None,
              reading 2 ''M2'' 12 (Some 7), reading 1 ''M2'' 13 None]\<rparr>"

text \<open>A table whose temperature sensor delivered no value at all.\<close>

definition without_temperature :: "row \<Rightarrow> row" where
  "without_temperature r = r\<lparr>num := (num r)(''temperature_c'' := None)\<rparr>"

definition dead_sensor_example :: frame where
  "dead_sensor_example =
     \<lparr>columns = sensor_columns,
      rows = [without_temperature (reading 1 ''M1'' 0 (Some 5)),
              without_temperature (reading 2 ''M1'' 0 (Some 6))]\<rparr>"

text \<open>The spec's wording of the IQR bounds. The \<open>q\<close>-th percentile of \<open>n\<close> numbers by linear
  interpolation: with the numbers in ascending order, counted from 0, and \<open>h = q \<sqdot> (n - 1)\<close>,
  it lies between the numbers at the ranks \<open>\<lfloor>h\<rfloor>\<close> and \<open>\<lceil>h\<rceil>\<close>, at the fraction of \<open>h\<close>. With
  \<open>Q1\<close> and \<open>Q3\<close> the 25th and 75th percentile of the numbers of the column,
  \<open>lower = Q1 - m \<sqdot> (Q3 - Q1)\<close> and \<open>upper = Q3 + m \<sqdot> (Q3 - Q1)\<close>; a column without a number has
  no bounds. And what it is for a value to fall strictly outside \<open>[lower, upper]\<close>.\<close>

definition percentile :: "real list \<Rightarrow> real \<Rightarrow> real" where
  "percentile xs q =
     (let s = sort xs; h = q * real (length xs - 1); g = h - real_of_int \<lfloor>h\<rfloor>
      in (1 - g) * s ! nat \<lfloor>h\<rfloor> + g * s ! nat \<lceil>h\<rceil>)"

definition tukey_bound :: "real option list \<Rightarrow> real \<Rightarrow> bound" where
  "tukey_bound vs m =
     (let xs = dropna vs in
      if xs = [] then \<lparr>lower = None, upper = None\<rparr>
      else let q1 = percentile xs (25 / 100); q3 = percentile xs (75 / 100)
           in \<lparr>lower = Some (q1 - m * (q3 - q1)), upper = Some (q3 + m * (q3 - q1))\<rparr>)"

definition strictly_outside :: "real option \<Rightarrow> bound \<Rightarrow> bool" where
  "strictly_outside v b =
     (case v of
        None \<Rightarrow> False
      | Some x \<Rightarrow>
          (case lower b of None \<Rightarrow> False | Some lo \<Rightarrow> x < lo) \<or>
          (case upper b of None \<Rightarrow> False | Some hi \<Rightarrow> hi < x))"



text \<open>Four rows with the four combinations of the two method flags.\<close>

definition flags_example :: frame where
  "flags_example =
     \<lparr>columns = [(''machine_id'', Object), (''anomaly_zscore'', Bool), (''anomaly_iqr'', Bool)],
      rows = map (\<lambda>(z, i). \<lparr>timestamp = 0, machine_id = ''M1'', num = (\<lambda>c. None),
                  score = (\<lambda>c. NaN),
                  flag = (\<lambda>c. if c = ''anomaly_zscore'' then z else if c = ''anomaly_iqr'' then i
                             else False)\<rparr>)
               [(False, False), (False, True), (True, False), (True, True)]\<rparr>"

text \<open>The spec's wording of the feature stage: the numeric series of the partition the
  \<open>i\<close>-th row belongs to, the row's position in it, the trailing window of \<open>n\<close> readings
  at position \<open>k\<close> of a series, which are the readings at the positions \<open>k - n + 1\<close> to \<open>k\<close>
  as far as there are such positions, and the sample standard deviation of a window.\<close>

definition trailing :: "nat \<Rightarrow> real list \<Rightarrow> nat \<Rightarrow> real list" where
  "trailing n p k = map (\<lambda>j. p ! j) [Suc k - n..<Suc k]"

definition partition_of :: "row list \<Rightarrow> string \<Rightarrow> nat \<Rightarrow> real list" where
  "partition_of rs c i =
     dropna (map (\<lambda>r. num r c) (filter (\<lambda>r. machine_id r = machine_id (rs ! i)) rs))"

definition position_in_partition :: "row list \<Rightarrow> nat \<Rightarrow> nat" where
  "position_in_partition rs i =
     length (filter (\<lambda>r. machine_id r = machine_id (rs ! i)) (take i rs))"

definition sample_std :: "real list \<Rightarrow> real" where
  "sample_std w =
     (let m = sum_list w / real (length w)
      in sqrt (sum_list (map (\<lambda>x. (x - m)\<^sup>2) w) / real (length w - 1)))"

text \<open>The names of the columns the feature stage derives from the given sensors.\<close>

definition feature_names :: "string list \<Rightarrow> string list" where
  "feature_names cols =
     concat (map (\<lambda>c. [c @ ''_roll_mean'', c @ ''_roll_std'', c @ ''_diff'']) cols)"

text \<open>A cleaned table of two machines, not in sorted order.\<close>

definition cleaned_example :: frame where
  "cleaned_example =
     \<lparr>columns = sensor_columns,
      rows = [reading 2 ''M1'' 0 (Some 7), reading 1 ''M2'' 0 (Some 3), reading 1 ''M1'' 0 (Some 5)]\<rparr>"

text \<open>A cleaned table with twelve readings of one machine, latest first, and one reading
  of another machine.\<close>

definition long_example :: frame where
  "long_example =
     \<lparr>columns = sensor_columns,
      rows = reading 1 ''M2'' 0 (Some 40) #
             map (\<lambda>t. reading t ''M1'' 0 (Some (real_of_int t))) [12, 11, 10, 9, 8, 7, 6, 5, 4, 3, 2, 1]\<rparr>"

text \<open>The columns \<open>load_data\<close> asks for.\<close>

definition required_columns :: "string set" where
  "required_columns =
     {''timestamp'', ''machine_id'', ''label'', ''temperature_c'', ''vibration_mm_s'',
      ''pressure_bar'', ''cycle_time_s'', ''operating_hours''}"

text \<open>A directory with a complete raw file, a file that lacks two columns, a file that has
  the header line of all required columns and no record, and a file that has neither the
  \<open>timestamp\<close> nor the \<open>label\<close> column.\<close>

definition header_only :: frame where
  "header_only = \<lparr>columns = sensor_columns, rows = []\<rparr>"

definition files_example :: files where
  "files_example =
     [''data/raw_sensor_data.csv'' \<mapsto> Table raw_example,
      ''data/broken.csv'' \<mapsto>
        Table \<lparr>columns = [(''timestamp'', Datetime), (''machine_id'', Object), (''temperature_c'', Float),
                    (''vibration_mm_s'', Float), (''pressure_bar'', Float), (''cycle_time_s'', Float)],
         rows = []\<rparr>,
      ''data/header_only.csv'' \<mapsto> Table header_only,
      ''data/no_timestamp.csv'' \<mapsto>
        Table \<lparr>columns = [(''machine_id'', Object), (''temperature_c'', Float),
                    (''vibration_mm_s'', Float), (''pressure_bar'', Float), (''cycle_time_s'', Float),
                    (''operating_hours'', Float)],
         rows = []\<rparr>]"

text \<open>A loop of in-place steps on one object, run on the frame itself: the outcome and
  the frame the object holds when the loop ends or raises.\<close>

fun run_steps :: "('x \<Rightarrow> frame \<Rightarrow> error + frame) \<Rightarrow> 'x list \<Rightarrow> frame \<Rightarrow> (error + unit) \<times> frame" where
  "run_steps g [] df = (Inr (), df)"
| "run_steps g (x # xs) df =
     (case g x df of Inl e \<Rightarrow> (Inl e, df) | Inr df' \<Rightarrow> run_steps g xs df')"

text \<open>The later state has all objects and events of the earlier one, unchanged, and
  possibly new ones after them.\<close>

definition grows :: "state \<Rightarrow> state \<Rightarrow> bool" where
  "grows s s' \<longleftrightarrow>
     take (length (objects s)) (objects s') = objects s \<and>
     take (length (events s)) (events s') = events s"

text \<open>A procedure run in state \<open>s\<close> left every object and event of \<open>s\<close> as it was,
  and what it returned is a new object, holding the frame \<open>v\<close> (or it raised as \<open>v\<close>
  says).\<close>

definition returns_new :: "state \<Rightarrow> (error + nat) \<times> state \<Rightarrow> error + frame \<Rightarrow> bool" where
  "returns_new s r v \<longleftrightarrow>
     grows s (snd r) \<and> result_frame r = v \<and>
     (case fst r of Inl e \<Rightarrow> True
      | Inr d \<Rightarrow> length (objects s) \<le> d \<and> d < length (objects (snd r)))"

text \<open>What "the procedure works on a copy" means for a call with the argument at address
  \<open>a\<close> in state \<open>s\<close>: afterwards every object that existed holds the frame it held, the
  argument among them, and the result is another object, holding the frame \<open>v\<close>; if the
  call raised, it raised what \<open>v\<close> says.\<close>

definition works_on_copy :: "nat \<Rightarrow> state \<Rightarrow> nat proc \<Rightarrow> error + frame \<Rightarrow> bool" where
  "works_on_copy a s p v \<longleftrightarrow>
     (case p s of (r, s') \<Rightarrow>
        take (length (objects s)) (objects s') = objects s \<and>
        objects s' ! a = objects s ! a \<and>
        (case r of
           Inl e \<Rightarrow> v = Inl e
         | Inr d \<Rightarrow> d \<noteq> a \<and> d < length (objects s') \<and> v = Inr (objects s' ! d)))"

text \<open>Two program states: one that holds only a cleaned table, and one with another table
  before it and a line in the log.\<close>

definition state_one :: state where
  "state_one = \<lparr>objects = [cleaned_example], events = []\<rparr>"

definition state_two :: state where
  "state_two = \<lparr>objects = [raw_example, cleaned_example], events = [Data_cleaned 3]\<rparr>"

section \<open>Lemmas about frames and series\<close>

lemma rows_set_num:
  "length vs = length (rows df) \<Longrightarrow>
   rows (set_num c vs df) = map2 (\<lambda>r v. r\<lparr>num := (num r)(c := v)\<rparr>) (rows df) vs"
  by (simp add: set_num_def)

lemma length_rows_set_num [simp]:
  "length (rows (set_num c vs df)) = min (length (rows df)) (length vs)"
  by (simp add: set_num_def)

lemma machine_id_set_num [simp]:
  "length vs = length (rows df) \<Longrightarrow>
   map machine_id (rows (set_num c vs df)) = map machine_id (rows df)"
  by (auto simp: set_num_def intro!: nth_equalityI)

lemma num_set_num_other:
  "length vs = length (rows df) \<Longrightarrow> c' \<noteq> c \<Longrightarrow>
   map (\<lambda>r. num r c') (rows (set_num c vs df)) = map (\<lambda>r. num r c') (rows df)"
  by (auto simp: set_num_def intro!: nth_equalityI)

lemma num_set_num_same:
  "length vs = length (rows df) \<Longrightarrow>
   map (\<lambda>r. num r c) (rows (set_num c vs df)) = vs"
  by (auto simp: set_num_def intro!: nth_equalityI)

lemma get_col_Inr:
  "get_col df c t f = Inr xs \<Longrightarrow> xs = map f (rows df) \<and> map_of (columns df) c = Some t"
  by (auto simp: get_col_def split: option.splits if_splits)

lemma length_transform_agg [simp]: "length (transform_agg f ks vs) = length ks"
  by (simp add: transform_agg_def)

lemma length_fillna [simp]: "length (fillna c xs) = length xs"
  by (simp add: fillna_def)

lemma length_replace_nan [simp]: "length (replace_nan z xs) = length xs"
  by (simp add: replace_nan_def)

lemma length_fillna_float [simp]: "length (fillna_float c xs) = length xs"
  by (simp add: fillna_float_def)

lemma length_rows_set_score [simp]:
  "length (rows (set_score c vs df)) = min (length (rows df)) (length vs)"
  by (simp add: set_score_def)

lemma machine_id_set_score [simp]:
  "length vs = length (rows df) \<Longrightarrow>
   map machine_id (rows (set_score c vs df)) = map machine_id (rows df)"
  unfolding set_score_def by (rule nth_equalityI) simp_all

lemma num_set_score [simp]:
  "length vs = length (rows df) \<Longrightarrow>
   map (\<lambda>r. num r c') (rows (set_score c vs df)) = map (\<lambda>r. num r c') (rows df)"
  unfolding set_score_def by (rule nth_equalityI) simp_all

lemma score_set_score:
  "length vs = length (rows df) \<Longrightarrow>
   map (\<lambda>r. score r c') (rows (set_score c vs df))
     = (if c' = c then vs else map (\<lambda>r. score r c') (rows df))"
  unfolding set_score_def by (auto intro!: nth_equalityI)

lemma map_of_set_score [simp]:
  "map_of (columns (set_score c vs df)) = (map_of (columns df))(c \<mapsto> Quotient)"
  by (simp add: set_score_def update_conv')

lemma zscore_column_length:
  "zscore_column agg df col = Inr z \<Longrightarrow> length z = length (rows df)"
  by (auto simp: zscore_column_def get_machine_id_def get_num_def
      split: sum.splits dest!: get_col_Inr)

subsection \<open>Z-score scorer\<close>

lemma dropna_const:
  "\<forall>x\<in>set xs. x = None \<or> x = Some v \<Longrightarrow> \<forall>y\<in>set (dropna xs). y = v"
  by (induction xs rule: dropna.induct) auto

lemma dropna_mem: "Some v \<in> set xs \<Longrightarrow> v \<in> set (dropna xs)"
  by (induction xs rule: dropna.induct) auto

lemma sum_list_const:
  fixes v :: real
  shows "\<forall>y\<in>set ys. y = v \<Longrightarrow> sum_list ys = real (length ys) * v"
  by (induction ys) (auto simp: algebra_simps)

text \<open>The deviation over the reals is zero on a series of equal numbers.\<close>

lemma flat_deviation_std: "flat_deviation std"
  unfolding flat_deviation_def
proof (intro allI impI)
  fix xs :: "real option list" and v
  assume "\<forall>x\<in>set xs. x = None \<or> x = Some v"
  then have c: "\<forall>y\<in>set (dropna xs). y = v" by (rule dropna_const)
  show "std xs = Some 0 \<or> std xs = None"
  proof (cases "length (dropna xs) < 2")
    case True
    then show ?thesis by (simp add: std_def var_def Let_def)
  next
    case False
    then have n: "real (length (dropna xs)) \<noteq> 0" by auto
    have m: "sum_list (dropna xs) / real (length (dropna xs)) = v"
      using sum_list_const [OF c] n by simp
    have "\<forall>y\<in>set (map (\<lambda>x. (x - v)\<^sup>2) (dropna xs)). y = 0" using c by auto
    then have "sum_list (map (\<lambda>x. (x - v)\<^sup>2) (dropna xs)) = 0"
      using sum_list_const [of "map (\<lambda>x. (x - v)\<^sup>2) (dropna xs)" 0] by simp
    then show ?thesis using False by (simp add: std_def var_def Let_def m)
  qed
qed

lemma group_values_nth:
  "length ks = length vs \<Longrightarrow> i < length ks \<Longrightarrow> vs ! i \<in> set (group_values ks vs (ks ! i))"
  by (force simp: group_values_def set_zip)

lemma group_values_set:
  "length ks = length vs \<Longrightarrow> x \<in> set (group_values ks vs k) \<Longrightarrow> \<exists>j<length ks. ks ! j = k \<and> vs ! j = x"
  by (force simp: group_values_def set_zip)

lemma zscore_column_constant:
  assumes z: "zscore_column agg df col = Inr z"
    and fd: "flat_deviation (group_std agg)"
    and c: "\<forall>r\<in>set (rows df). machine_id r = m \<longrightarrow> num r col = None \<or> num r col = Some v"
    and i: "i < length (rows df)" and mi: "machine_id (rows df ! i) = m"
  shows "z ! i = Finite 0"
proof -
  define ks where "ks = map machine_id (rows df)"
  define vs where "vs = map (\<lambda>r. num r col) (rows df)"
  have zeq: "z = fillna_float (Finite 0)
      (map2 fdiv (map2 fsub vs (transform_agg (group_mean agg) ks vs))
                 (replace_nan 0 (transform_agg (group_std agg) ks vs)))"
    using z by (auto simp: zscore_column_def get_machine_id_def get_num_def ks_def vs_def
        split: sum.splits dest!: get_col_Inr)
  have len: "length ks = length vs" "i < length ks" "length ks = length (rows df)"
    using i by (simp_all add: ks_def vs_def)
  have ki: "ks ! i = m" using i mi by (simp add: ks_def)
  have grp: "\<forall>x\<in>set (group_values ks vs m). x = None \<or> x = Some v"
  proof
    fix x assume "x \<in> set (group_values ks vs m)"
    then obtain j where j: "j < length ks" "ks ! j = m" "vs ! j = x"
      using group_values_set [OF len(1)] by blast
    then have "rows df ! j \<in> set (rows df)" "machine_id (rows df ! j) = m"
      using len by (simp_all add: ks_def)
    with c have "num (rows df ! j) col = None \<or> num (rows df ! j) col = Some v" by blast
    then show "x = None \<or> x = Some v" using j len by (simp add: vs_def)
  qed
  have sd: "group_std agg (group_values ks vs m) = Some 0 \<or> group_std agg (group_values ks vs m) = None"
    using fd [unfolded flat_deviation_def, THEN spec, THEN spec, THEN mp, OF grp] .
  have t: "transform_agg (group_std agg) ks vs ! i = group_std agg (group_values ks vs m)"
    using len ki by (simp add: transform_agg_def)
  have "replace_nan 0 (transform_agg (group_std agg) ks vs) ! i
      = (if transform_agg (group_std agg) ks vs ! i = Some 0 then None
         else transform_agg (group_std agg) ks vs ! i)"
    using len by (simp add: replace_nan_def)
  then have d: "replace_nan 0 (transform_agg (group_std agg) ks vs) ! i = None"
    unfolding t using sd by auto
  have "z ! i = (let q = fdiv (fsub (vs ! i) (transform_agg (group_mean agg) ks vs ! i))
                   (replace_nan 0 (transform_agg (group_std agg) ks vs) ! i)
                 in if q = NaN then Finite 0 else q)"
    using len by (simp add: zeq fillna_float_def Let_def)
  also have "\<dots> = Finite 0"
    unfolding d by (cases "fsub (vs ! i) (transform_agg (group_mean agg) ks vs ! i)") simp_all
  finally show ?thesis .
qed

lemma constant_in_partitionD:
  assumes "constant_in_partition df m col"
  shows "\<exists>v. \<forall>r\<in>set (rows df). machine_id r = m \<longrightarrow> num r col = None \<or> num r col = Some v"
proof (cases "dropna (map (\<lambda>r. num r col) (filter (\<lambda>r. machine_id r = m) (rows df)))")
  case Nil
  have "\<forall>r\<in>set (rows df). machine_id r = m \<longrightarrow> num r col = None"
  proof (intro ballI impI)
    fix r assume r: "r \<in> set (rows df)" "machine_id r = m"
    show "num r col = None"
    proof (rule ccontr)
      assume "num r col \<noteq> None"
      then obtain x where "num r col = Some x" by auto
      then have "Some x \<in> set (map (\<lambda>r. num r col) (filter (\<lambda>r. machine_id r = m) (rows df)))"
        using r by force
      from dropna_mem [OF this] Nil show False by simp
    qed
  qed
  then show ?thesis by blast
next
  case (Cons v vs)
  have "\<forall>r\<in>set (rows df). machine_id r = m \<longrightarrow> num r col = None \<or> num r col = Some v"
  proof (intro ballI impI)
    fix r assume r: "r \<in> set (rows df)" "machine_id r = m"
    show "num r col = None \<or> num r col = Some v"
    proof (cases "num r col")
      case None
      then show ?thesis by simp
    next
      case (Some x)
      then have "Some x \<in> set (map (\<lambda>r. num r col) (filter (\<lambda>r. machine_id r = m) (rows df)))"
        using r by force
      from dropna_mem [OF this] have "x \<in> set (v # vs)" by (simp add: Cons)
      moreover have "list_all (\<lambda>x. x = v) vs"
        using assms by (simp add: constant_in_partition_def Cons)
      ultimately have "x = v" by (auto simp: list_all_iff)
      with Some show ?thesis by simp
    qed
  qed
  then show ?thesis by blast
qed

lemma compute_z_scores_frame:
  "compute_z_scores agg df cols = Inr df1 \<Longrightarrow>
     map machine_id (rows df1) = map machine_id (rows df) \<and>
     (\<forall>n. map (\<lambda>r. num r n) (rows df1) = map (\<lambda>r. num r n) (rows df)) \<and>
     (\<forall>n. n \<notin> set (map (\<lambda>c. c @ ''_zscore'') cols) \<longrightarrow>
        map (\<lambda>r. score r n) (rows df1) = map (\<lambda>r. score r n) (rows df))"
proof (induction cols arbitrary: df)
  case Nil
  then show ?case by simp
next
  case (Cons col cols)
  from Cons.prems obtain z where z: "zscore_column agg df col = Inr z"
    and rest: "compute_z_scores agg (set_score (col @ ''_zscore'') z df) cols = Inr df1"
    by (auto split: sum.splits)
  have len: "length z = length (rows df)" using z by (rule zscore_column_length)
  from Cons.IH [OF rest] len show ?case
    by (auto simp: score_set_score)
qed

lemma compute_z_scores_length:
  "compute_z_scores agg df cols = Inr df1 \<Longrightarrow> length (rows df1) = length (rows df)"
  using compute_z_scores_frame [of agg df cols df1] by (metis length_map)

lemma compute_z_scores_constant:
  assumes "compute_z_scores agg df cols = Inr df1"
    and "flat_deviation (group_std agg)"
    and "col \<in> set cols"
    and "\<forall>r\<in>set (rows df). machine_id r = m \<longrightarrow> num r col = None \<or> num r col = Some v"
    and "i < length (rows df)" and "machine_id (rows df ! i) = m"
  shows "score (rows df1 ! i) (col @ ''_zscore'') = Finite 0"
  using assms
proof (induction cols arbitrary: df)
  case Nil
  then show ?case by simp
next
  case (Cons c cols)
  from Cons.prems(1) obtain z where z: "zscore_column agg df c = Inr z"
    and rest: "compute_z_scores agg (set_score (c @ ''_zscore'') z df) cols = Inr df1"
    by (auto split: sum.splits)
  let ?df' = "set_score (c @ ''_zscore'') z df"
  have len: "length z = length (rows df)" using z by (rule zscore_column_length)
  have mid: "map machine_id (rows ?df') = map machine_id (rows df)" using len by simp
  have colv: "map (\<lambda>r. num r col) (rows ?df') = map (\<lambda>r. num r col) (rows df)"
    using len by simp
  have i': "i < length (rows ?df')" using Cons.prems(5) len by simp
  have mi': "machine_id (rows ?df' ! i) = m"
    using nth_map [of i "rows ?df'" machine_id] nth_map [of i "rows df" machine_id]
      mid i' Cons.prems(5,6) by simp
  have c': "\<forall>r\<in>set (rows ?df'). machine_id r = m \<longrightarrow> num r col = None \<or> num r col = Some v"
  proof (intro ballI impI)
    fix r assume "r \<in> set (rows ?df')" and rm: "machine_id r = m"
    then obtain j where j: "j < length (rows ?df')" "rows ?df' ! j = r"
      by (auto simp: in_set_conv_nth)
    then have jl: "j < length (rows df)" using len by simp
    have "machine_id (rows df ! j) = machine_id r"
      using nth_map [of j "rows ?df'" machine_id] nth_map [of j "rows df" machine_id] mid j jl
      by simp
    moreover have "num (rows df ! j) col = num r col"
      using nth_map [of j "rows ?df'" "\<lambda>r. num r col"] nth_map [of j "rows df" "\<lambda>r. num r col"]
        colv j jl by simp
    ultimately show "num r col = None \<or> num r col = Some v"
      using Cons.prems(4) jl rm by (metis nth_mem)
  qed
  show ?case
  proof (cases "col \<in> set cols")
    case True
    from Cons.IH [OF rest Cons.prems(2) True c' i' mi'] show ?thesis .
  next
    case False
    then have cc: "col = c" using Cons.prems(3) by simp
    have "col @ ''_zscore'' \<notin> set (map (\<lambda>c. c @ ''_zscore'') cols)" using False by auto
    with compute_z_scores_frame [OF rest]
    have "map (\<lambda>r. score r (col @ ''_zscore'')) (rows df1)
        = map (\<lambda>r. score r (col @ ''_zscore'')) (rows ?df')" by blast
    also have "\<dots> = z" using len cc by (simp add: score_set_score)
    finally have "map (\<lambda>r. score r (col @ ''_zscore'')) (rows df1) = z" .
    moreover have "length (rows df1) = length (rows df)"
      using compute_z_scores_length [OF Cons.prems(1)] .
    ultimately have "score (rows df1 ! i) (col @ ''_zscore'') = z ! i"
      using Cons.prems(5) by (metis nth_map)
    also have "z ! i = Finite 0"
      using zscore_column_constant [OF _ Cons.prems(2) Cons.prems(4) Cons.prems(5) Cons.prems(6)] z cc
      by simp
    finally show ?thesis .
  qed
qed

lemma flag_zscore_anomalies_rows:
  assumes "flag_zscore_anomalies df cols t = Inr df2"
  shows "length (rows df2) = length (rows df)"
    and "i < length (rows df) \<Longrightarrow>
      flag (rows df2 ! i) ''anomaly_zscore''
        = list_ex (\<lambda>c. abs_gt (cell df (rows df ! i) c) t) (map (\<lambda>c. c @ ''_zscore'') cols)"
    and "i < length (rows df) \<Longrightarrow> machine_id (rows df2 ! i) = machine_id (rows df ! i)"
  using assms
  by (auto simp: flag_zscore_anomalies_def Let_def set_flag_def split: sum.splits)

lemma get_col_ok:
  "map_of (columns df) c = Some t \<Longrightarrow> get_col df c t f = Inr (map f (rows df))"
  by (simp add: get_col_def)

lemma map_of_set_num [simp]:
  "map_of (columns (set_num c vs df)) = (map_of (columns df))(c \<mapsto> Float)"
  by (simp add: set_num_def update_conv')

lemma map_of_set_flag [simp]:
  "map_of (columns (set_flag c vs df)) = (map_of (columns df))(c \<mapsto> Bool)"
  by (simp add: set_flag_def update_conv')

lemma zscore_name_neq_machine_id [simp]: "c @ ''_zscore'' \<noteq> ''machine_id''"
proof
  assume "c @ ''_zscore'' = ''machine_id''"
  then have "last (c @ ''_zscore'') = last ''machine_id''" by simp
  then show False by simp
qed

lemma zscore_column_ok:
  "map_of (columns df) ''machine_id'' = Some Object \<Longrightarrow> map_of (columns df) col = Some Float \<Longrightarrow>
   \<exists>z. zscore_column agg df col = Inr z"
  by (simp add: zscore_column_def get_machine_id_def get_num_def get_col_ok)

lemma compute_z_scores_ok:
  assumes "map_of (columns df) ''machine_id'' = Some Object"
    and "\<forall>c\<in>set cols. map_of (columns df) c = Some Float"
    and "set cols \<inter> set (map (\<lambda>c. c @ ''_zscore'') cols) = {}"
  shows "\<exists>df1. compute_z_scores agg df cols = Inr df1"
  using assms
proof (induction cols arbitrary: df)
  case Nil
  then show ?case by simp
next
  case (Cons c cols)
  obtain z where z: "zscore_column agg df c = Inr z"
    using zscore_column_ok [where df = df and col = c and agg = agg] Cons.prems by auto
  let ?df' = "set_score (c @ ''_zscore'') z df"
  have "map_of (columns ?df') ''machine_id'' = Some Object"
    using Cons.prems(1) by simp
  moreover have "\<forall>c\<in>set cols. map_of (columns ?df') c = Some Float"
    using Cons.prems(2,3) by auto
  moreover have "set cols \<inter> set (map (\<lambda>c. c @ ''_zscore'') cols) = {}"
    using Cons.prems(3) by auto
  ultimately obtain df1 where "compute_z_scores agg ?df' cols = Inr df1"
    using Cons.IH by blast
  then show ?case using z by simp
qed

lemma compute_z_scores_columns:
  "compute_z_scores agg df cols = Inr df1 \<Longrightarrow>
   map_of (columns df1) n =
     (if n \<in> set (map (\<lambda>c. c @ ''_zscore'') cols) then Some Quotient else map_of (columns df) n)"
proof (induction cols arbitrary: df)
  case Nil
  then show ?case by simp
next
  case (Cons c cols)
  from Cons.prems obtain z where z: "zscore_column agg df c = Inr z"
    and rest: "compute_z_scores agg (set_score (c @ ''_zscore'') z df) cols = Inr df1"
    by (auto split: sum.splits)
  from Cons.IH [OF rest] show ?case by auto
qed

lemma check_float_ok:
  "\<forall>c\<in>set cs. map_of (columns df) c = Some Float \<or> map_of (columns df) c = Some Quotient \<Longrightarrow>
   check_float df cs = Inr ()"
  by (induction cs) auto

lemma machine_id_set_flag [simp]:
  "length bs = length (rows df) \<Longrightarrow>
   map machine_id (rows (set_flag c bs df)) = map machine_id (rows df)"
  unfolding set_flag_def by (rule nth_equalityI) simp_all

lemma flag_zscore_anomalies_machine_id:
  "flag_zscore_anomalies df cols t = Inr df2 \<Longrightarrow>
   map machine_id (rows df2) = map machine_id (rows df)"
  by (auto simp: flag_zscore_anomalies_def Let_def split: sum.splits)

lemma flag_zscore_anomalies_ok:
  "\<forall>c\<in>set cols. map_of (columns df) (c @ ''_zscore'') = Some Quotient \<Longrightarrow>
   \<exists>df2. flag_zscore_anomalies df cols t = Inr df2"
  by (simp add: flag_zscore_anomalies_def Let_def check_float_ok)

text \<open>
  Claim C1. Where a sensor column is constant in a machine's partition, \<open>compute_z_scores\<close>
  gives every row of the partition the z-score 0 for that sensor; and where every configured
  sensor is constant in the partition, \<open>flag_zscore_anomalies\<close> sets \<open>anomaly_zscore\<close>
  to false on every row of the partition, for every threshold above 0. This holds for
  every pair of group aggregates whose deviation of a constant series is zero (or NaN, on
  fewer than two numbers), whatever their mean is: the difference to the mean need not
  be zero, and it is the replacement of the zero divisor that makes the score 0. Both
  functions return on a frame that has the \<open>machine_id\<close> column and the configured sensor
  columns, none of them named as the \<open>_zscore\<close> column of another.
\<close>

theorem zscore_constant_partition:
  assumes "map_of (columns df) ''machine_id'' = Some Object"
    and "\<forall>c\<in>set cols. map_of (columns df) c = Some Float"
    and "set cols \<inter> set (map (\<lambda>c. c @ ''_zscore'') cols) = {}"
    and "flat_deviation (group_std agg)"
  shows "\<exists>df1. compute_z_scores agg df cols = Inr df1 \<and>
      map machine_id (rows df1) = map machine_id (rows df) \<and>
      (\<forall>col\<in>set cols. constant_in_partition df m col \<longrightarrow>
          (\<forall>r\<in>set (rows df1). machine_id r = m \<longrightarrow> score r (col @ ''_zscore'') = Finite 0)) \<and>
      (\<forall>threshold. 0 < threshold \<longrightarrow>
          (\<forall>col\<in>set cols. constant_in_partition df m col) \<longrightarrow>
          (\<exists>df2. flag_zscore_anomalies df1 cols threshold = Inr df2 \<and>
              map machine_id (rows df2) = map machine_id (rows df) \<and>
              (\<forall>r\<in>set (rows df2). machine_id r = m \<longrightarrow> \<not> flag r ''anomaly_zscore'')))"
proof -
  obtain df1 where df1: "compute_z_scores agg df cols = Inr df1"
    using compute_z_scores_ok [OF assms(1-3)] by blast
  have mid: "map machine_id (rows df1) = map machine_id (rows df)"
    using compute_z_scores_frame [OF df1] by blast
  have len: "length (rows df1) = length (rows df)" using df1 by (rule compute_z_scores_length)
  have zero: "score (rows df1 ! i) (col @ ''_zscore'') = Finite 0"
    if a: "col \<in> set cols" "constant_in_partition df m col" "i < length (rows df)"
      "machine_id (rows df1 ! i) = m"
    for col i
  proof -
    obtain v where v: "\<forall>r\<in>set (rows df). machine_id r = m \<longrightarrow> num r col = None \<or> num r col = Some v"
      using constant_in_partitionD [OF a(2)] by blast
    have "machine_id (rows df ! i) = m"
      using nth_map [of i "rows df1" machine_id] nth_map [of i "rows df" machine_id] mid len a(3,4)
      by simp
    from compute_z_scores_constant [OF df1 assms(4) a(1) v a(3) this] show ?thesis .
  qed
  have part1: "\<forall>col\<in>set cols. constant_in_partition df m col \<longrightarrow>
          (\<forall>r\<in>set (rows df1). machine_id r = m \<longrightarrow> score r (col @ ''_zscore'') = Finite 0)"
  proof (intro ballI impI)
    fix col r
    assume a: "col \<in> set cols" "constant_in_partition df m col" "r \<in> set (rows df1)"
      "machine_id r = m"
    then obtain i where i: "i < length (rows df1)" "rows df1 ! i = r"
      by (auto simp: in_set_conv_nth)
    then show "score r (col @ ''_zscore'') = Finite 0"
      using zero [OF a(1) a(2), of i] a(4) len by simp
  qed
  have part2: "\<exists>df2. flag_zscore_anomalies df1 cols t = Inr df2 \<and>
              map machine_id (rows df2) = map machine_id (rows df) \<and>
              (\<forall>r\<in>set (rows df2). machine_id r = m \<longrightarrow> \<not> flag r ''anomaly_zscore'')"
    if t: "0 < t" and allc: "\<forall>col\<in>set cols. constant_in_partition df m col" for t
  proof -
    have q: "\<forall>c\<in>set cols. map_of (columns df1) (c @ ''_zscore'') = Some Quotient"
      using compute_z_scores_columns [OF df1] by simp
    then obtain df2 where df2: "flag_zscore_anomalies df1 cols t = Inr df2"
      using flag_zscore_anomalies_ok by blast
    note fr = flag_zscore_anomalies_rows [OF df2]
    have mid2: "map machine_id (rows df2) = map machine_id (rows df)"
      using flag_zscore_anomalies_machine_id [OF df2] mid by simp
    have "\<not> flag r ''anomaly_zscore''" if r: "r \<in> set (rows df2)" "machine_id r = m" for r
    proof -
      obtain i where i: "i < length (rows df2)" "rows df2 ! i = r"
        using r(1) by (auto simp: in_set_conv_nth)
      then have i1: "i < length (rows df1)" "i < length (rows df)" using fr(1) len by simp_all
      have m1: "machine_id (rows df1 ! i) = m" using fr(3) [OF i1(1)] i r(2) by simp
      have "\<not> abs_gt (cell df1 (rows df1 ! i) (c @ ''_zscore'')) t" if "c \<in> set cols" for c
        using zero [of c i] allc that i1 m1 t q by (simp add: cell_def)
      then have "\<not> list_ex (\<lambda>c. abs_gt (cell df1 (rows df1 ! i) c) t) (map (\<lambda>c. c @ ''_zscore'') cols)"
        by (auto simp: list_ex_iff)
      then show ?thesis using fr(2) [OF i1(1)] i by simp
    qed
    then show ?thesis using df2 mid2 by blast
  qed
  show ?thesis using df1 mid part1 part2 by blast
qed

theorem zscore_constant_partition_witness:
  "\<exists>df1 df2. compute_z_scores rounded flat_signal SENSOR_COLS = Inr df1 \<and>
      flag_zscore_anomalies df1 SENSOR_COLS Z_THRESHOLD = Inr df2 \<and>
      map machine_id (rows df2) = [''M1'', ''M1'', ''M1''] \<and>
      (\<forall>r\<in>set (rows df1). machine_id r = ''M1'' \<longrightarrow> score r ''temperature_c_zscore'' = Finite 0) \<and>
      (\<forall>r\<in>set (rows df2). machine_id r = ''M1'' \<longrightarrow> \<not> flag r ''anomaly_zscore'')"
proof -
  have c1: "map_of (columns flat_signal) ''machine_id'' = Some Object"
    by (simp add: flat_signal_def)
  have c2: "\<forall>c\<in>set SENSOR_COLS. map_of (columns flat_signal) c = Some Float"
    by (simp add: flat_signal_def SENSOR_COLS_def)
  have c3: "set SENSOR_COLS \<inter> set (map (\<lambda>c. c @ ''_zscore'') SENSOR_COLS) = {}"
    by (simp add: SENSOR_COLS_def)
  have c4: "flat_deviation (group_std rounded)"
    by (simp add: rounded_def flat_deviation_std)
  have k: "\<forall>col\<in>set SENSOR_COLS. constant_in_partition flat_signal ''M1'' col"
    by (simp add: SENSOR_COLS_def constant_in_partition_def flat_signal_def)
  have t: "0 < Z_THRESHOLD" by (simp add: Z_THRESHOLD_def)
  have m: "map machine_id (rows flat_signal) = [''M1'', ''M1'', ''M1'']"
    by (simp add: flat_signal_def)
  have s: "''temperature_c'' \<in> set SENSOR_COLS" by (simp add: SENSOR_COLS_def)
  from zscore_constant_partition [OF c1 c2 c3 c4, of "''M1''"] obtain df1 where
    df1: "compute_z_scores rounded flat_signal SENSOR_COLS = Inr df1"
    and z: "\<forall>col\<in>set SENSOR_COLS. constant_in_partition flat_signal ''M1'' col \<longrightarrow>
          (\<forall>r\<in>set (rows df1). machine_id r = ''M1'' \<longrightarrow> score r (col @ ''_zscore'') = Finite 0)"
    and f: "\<forall>threshold. 0 < threshold \<longrightarrow>
          (\<forall>col\<in>set SENSOR_COLS. constant_in_partition flat_signal ''M1'' col) \<longrightarrow>
          (\<exists>df2. flag_zscore_anomalies df1 SENSOR_COLS threshold = Inr df2 \<and>
              map machine_id (rows df2) = map machine_id (rows flat_signal) \<and>
              (\<forall>r\<in>set (rows df2). machine_id r = ''M1'' \<longrightarrow> \<not> flag r ''anomaly_zscore''))"
    by (elim exE conjE)
  from f [THEN spec, THEN mp, OF t, THEN mp, OF k] obtain df2 where
    df2: "flag_zscore_anomalies df1 SENSOR_COLS Z_THRESHOLD = Inr df2"
    and m2: "map machine_id (rows df2) = map machine_id (rows flat_signal)"
    and nf: "\<forall>r\<in>set (rows df2). machine_id r = ''M1'' \<longrightarrow> \<not> flag r ''anomaly_zscore''"
    by (elim exE conjE)
  have z1: "\<forall>r\<in>set (rows df1). machine_id r = ''M1'' \<longrightarrow> score r ''temperature_c_zscore'' = Finite 0"
    using z [rule_format, OF s] k s by simp
  have m3: "map machine_id (rows df2) = [''M1'', ''M1'', ''M1'']" using m2 m by simp
  show ?thesis using df1 df2 m3 z1 nf by (intro exI [of _ df1] exI [of _ df2] conjI)
qed

text \<open>What the guard prevents: with the rounded mean the numerator of a flat signal is not
  zero, and divided by the unguarded zero deviation it is an infinity, above every
  threshold.\<close>

lemma unguarded_quotient_is_flagged:
  "fdiv (fsub (Some 60) (group_mean rounded [Some 60, Some 60, Some 60]))
        (group_std rounded [Some 60, Some 60, Some 60]) = NegInf \<and>
   abs_gt NegInf Z_THRESHOLD"
  by (simp add: rounded_def mean_def std_def var_def)

subsection \<open>Dropping duplicates and sorting\<close>

lemma set_drop_dups_subset: "set (drop_dups k xs) \<subseteq> set xs"
  by (induction k xs rule: drop_dups.induct) auto

lemma length_drop_dups_le: "length (drop_dups k xs) \<le> length xs"
proof (induction k xs rule: drop_dups.induct)
  case (1 k)
  then show ?case by simp
next
  case (2 k x xs)
  have "length (filter (\<lambda>y. k y \<noteq> k x) xs) \<le> length xs" by simp
  with 2 have "length (drop_dups k (filter (\<lambda>y. k y \<noteq> k x) xs)) \<le> length xs"
    by (rule le_trans)
  then show ?case by simp
qed

lemma keys_drop_dups: "k ` set (drop_dups k xs) = k ` set xs"
proof (induction k xs rule: drop_dups.induct)
  case (1 k)
  then show ?case by simp
next
  case (2 k x xs)
  then show ?case by (auto simp: image_iff) 
qed

lemma distinct_keys_drop_dups: "distinct (map k (drop_dups k xs))"
proof (induction k xs rule: drop_dups.induct)
  case (1 k)
  then show ?case by simp
next
  case (2 k x xs)
  have "k x \<notin> k ` set (drop_dups k (filter (\<lambda>y. k y \<noteq> k x) xs))"
    using set_drop_dups_subset [of k "filter (\<lambda>y. k y \<noteq> k x) xs"] by auto
  with 2 show ?case by simp
qed

lemma drop_dups_distinct_id: "distinct (map k xs) \<Longrightarrow> drop_dups k xs = xs"
proof (induction xs)
  case Nil
  then show ?case by simp
next
  case (Cons x xs)
  from Cons.prems have "k x \<notin> k ` set xs" by simp
  then have "\<forall>y\<in>set xs. k y \<noteq> k x" by (metis imageI)
  then have "filter (\<lambda>y. k y \<noteq> k x) xs = xs" by (simp add: filter_id_conv)
  with Cons show ?case by simp
qed

lemma find_filter_other:
  "c \<noteq> k x \<Longrightarrow> find (\<lambda>z. k z = c) (filter (\<lambda>z. k z \<noteq> k x) xs) = find (\<lambda>z. k z = c) xs"
  by (induction xs) auto

lemma in_drop_dups_iff:
  "y \<in> set (drop_dups k xs) \<longleftrightarrow> find (\<lambda>z. k z = k y) xs = Some y"
proof (induction k xs arbitrary: y rule: drop_dups.induct)
  case (1 k)
  then show ?case by simp
next
  case (2 k x xs)
  show ?case
  proof (cases "k y = k x")
    case True
    have "y \<notin> set (drop_dups k (filter (\<lambda>y. k y \<noteq> k x) xs))"
      using set_drop_dups_subset [of k "filter (\<lambda>y. k y \<noteq> k x) xs"] True by auto
    then show ?thesis using True by auto
  next
    case False
    then show ?thesis using 2 [of y] find_filter_other [of "k y" k x xs] by auto
  qed
qed

lemma find_via_filter: "find P xs = (case filter P xs of [] \<Rightarrow> None | x # _ \<Rightarrow> Some x)"
  by (induction xs) auto

lemma find_sort_key_stable:
  "find (\<lambda>z. s z = c) (sort_key s xs) = find (\<lambda>z. s z = c) xs"
  by (simp add: find_via_filter sort_key_stable)

lemma sorted_drop_dups: "sorted (map s xs) \<Longrightarrow> sorted (map s (drop_dups k xs))"
proof (induction k xs rule: drop_dups.induct)
  case (1 k)
  then show ?case by simp
next
  case (2 k x xs)
  have "sorted (map s (filter (\<lambda>y. k y \<noteq> k x) xs))" using 2(2) by (simp add: sorted_filter)
  then have "sorted (map s (drop_dups k (filter (\<lambda>y. k y \<noteq> k x) xs)))" by (rule 2(1))
  moreover have "\<forall>y\<in>set (drop_dups k (filter (\<lambda>y. k y \<noteq> k x) xs)). s x \<le> s y"
    using set_drop_dups_subset [of k "filter (\<lambda>y. k y \<noteq> k x) xs"] 2(2) by auto
  ultimately show ?case by simp
qed

lemma sorted_distinct_keys_unique:
  assumes "sorted (map s xs)" "distinct (map s xs)" "sorted (map s ys)" "distinct (map s ys)"
    and "set xs = set ys"
  shows "xs = ys"
proof -
  have "set (map s xs) = set (map s ys)" using assms(5) by simp
  then have eq: "map s xs = map s ys"
    using assms(1-4) by (intro sorted_distinct_set_unique) 
  have "inj_on s (set xs \<union> set ys)" using assms(2,5) by (simp add: distinct_map)
  then show ?thesis using eq by (simp add: inj_on_map_eq_map)
qed

lemma distinct_map_equiv:
  assumes "\<And>x y. (k x = k y) = (s x = s y)"
  shows "distinct (map k xs) = distinct (map s xs)"
  by (auto simp: distinct_map inj_on_def assms)

lemma sort_key_drop_dups:
  fixes s :: "'a \<Rightarrow> 'b::linorder"
  assumes eqv: "\<And>x y. (k x = k y) = (s x = s y)"
  shows "sort_key s (drop_dups k xs) = drop_dups k (sort_key s xs)"
proof (rule sorted_distinct_keys_unique [where s = s])
  show "sorted (map s (sort_key s (drop_dups k xs)))" by simp
  have "distinct (map k (sort_key s (drop_dups k xs)))"
    using distinct_keys_drop_dups [of k xs] by (simp add: distinct_map)
  then show "distinct (map s (sort_key s (drop_dups k xs)))"
    using distinct_map_equiv [of k s, OF eqv] by simp
  show "sorted (map s (drop_dups k (sort_key s xs)))" by (simp add: sorted_drop_dups)
  show "distinct (map s (drop_dups k (sort_key s xs)))"
    using distinct_keys_drop_dups [of k "sort_key s xs"] distinct_map_equiv [of k s, OF eqv] by simp
  have pk: "(\<lambda>z. k z = k y) = (\<lambda>z. s z = s y)" for y by (simp add: eqv)
  show "set (sort_key s (drop_dups k xs)) = set (drop_dups k (sort_key s xs))"
    by (auto simp: in_drop_dups_iff pk find_sort_key_stable)
qed

subsection \<open>Filling\<close>

lemma length_ffill_from [simp]: "length (ffill_from p xs) = length xs"
  by (induction p xs rule: ffill_from.induct) auto

lemma length_ffill [simp]: "length (ffill xs) = length xs"
  by (simp add: ffill_def)

lemma length_bfill [simp]: "length (bfill xs) = length xs"
  by (simp add: bfill_def)

lemma ffill_from_all_Some: "\<forall>x\<in>set xs. x \<noteq> None \<Longrightarrow> ffill_from p xs = xs"
  by (induction p xs rule: ffill_from.induct) auto

lemma ffill_from_all_None: "\<forall>x\<in>set xs. x = None \<Longrightarrow> ffill_from None xs = xs"
  by (induction xs) auto

lemma bfill_ffill_uniform: "uniform g \<Longrightarrow> bfill (ffill g) = g"
  unfolding uniform_def
proof (elim disjE)
  assume a: "\<forall>x\<in>set g. x \<noteq> None"
  then have "ffill g = g" by (simp add: ffill_def ffill_from_all_Some)
  moreover have "ffill (rev g) = rev g" using a by (simp add: ffill_def ffill_from_all_Some)
  ultimately show ?thesis by (simp add: bfill_def)
next
  assume a: "\<forall>x\<in>set g. x = None"
  then have "ffill g = g" by (simp add: ffill_def ffill_from_all_None)
  moreover have "ffill (rev g) = rev g" using a by (simp add: ffill_def ffill_from_all_None)
  ultimately show ?thesis by (simp add: bfill_def)
qed

lemma set_group_values_subset: "set (group_values ks vs k) \<subseteq> set vs"
  by (auto simp: group_values_def dest: set_zip_rightD)

lemma uniform_group_values: "uniform vs \<Longrightarrow> uniform (group_values ks vs k)"
  using set_group_values_subset [of ks vs k] unfolding uniform_def by blast

lemma filter_split_nth:
  assumes "i < length xs" and "P (xs ! i)"
  shows "filter P xs = filter P (take i xs) @ xs ! i # filter P (drop (Suc i) xs)"
proof -
  have "xs = take i xs @ xs ! i # drop (Suc i) xs" using assms(1) by (rule id_take_nth_drop)
  then have "filter P xs = filter P (take i xs @ xs ! i # drop (Suc i) xs)"
    by (rule arg_cong)
  also have "\<dots> = filter P (take i xs) @ xs ! i # filter P (drop (Suc i) xs)"
    using assms(2) by simp
  finally show ?thesis .
qed

lemma filter_nth_rank:
  assumes "i < length xs" and "P (xs ! i)"
  shows "filter P xs ! length (filter P (take i xs)) = xs ! i"
    and "length (filter P (take i xs)) < length (filter P xs)"
proof -
  note sp = filter_split_nth [of i xs P, OF assms]
  show "filter P xs ! length (filter P (take i xs)) = xs ! i"
    by (subst sp) (simp add: nth_append)
  have "length (filter P xs) = length (filter P (take i xs)) + Suc (length (filter P (drop (Suc i) xs)))"
    by (subst sp) simp
  then show "length (filter P (take i xs)) < length (filter P xs)" by simp
qed

lemma group_values_rank:
  assumes len: "length ks = length vs" and i: "i < length ks"
  shows "group_values ks vs (ks ! i) ! length (filter (\<lambda>k. k = ks ! i) (take i ks)) = vs ! i"
    and "length (filter (\<lambda>k. k = ks ! i) (take i ks)) < length (group_values ks vs (ks ! i))"
proof -
  let ?P = "\<lambda>p. fst p = ks ! i"
  have iz: "i < length (zip ks vs)" using len i by simp
  have Pz: "?P (zip ks vs ! i)" using len i by simp
  have rk: "length (filter ?P (take i (zip ks vs))) = length (filter (\<lambda>k. k = ks ! i) (take i ks))"
  proof -
    have "map fst (filter ?P (take i (zip ks vs))) = filter (\<lambda>k. k = ks ! i) (map fst (take i (zip ks vs)))"
      by (simp add: filter_map comp_def)
    also have "map fst (take i (zip ks vs)) = take i ks" using len by (simp add: take_map [symmetric])
    finally show ?thesis by (metis length_map)
  qed
  note fr = filter_nth_rank [of i "zip ks vs" ?P, OF iz Pz]
  have "group_values ks vs (ks ! i) ! length (filter ?P (take i (zip ks vs)))
      = snd (filter ?P (zip ks vs) ! length (filter ?P (take i (zip ks vs))))"
    unfolding group_values_def using fr(2) by (rule nth_map)
  also have "\<dots> = vs ! i" using fr(1) len i by simp
  finally show "group_values ks vs (ks ! i) ! length (filter (\<lambda>k. k = ks ! i) (take i ks)) = vs ! i"
    using rk by simp
  show "length (filter (\<lambda>k. k = ks ! i) (take i ks)) < length (group_values ks vs (ks ! i))"
    using fr(2) rk by (simp add: group_values_def)
qed

lemma length_transform [simp]: "length (transform f ks vs) = length ks"
  by (simp add: transform_def)

lemma transform_nth:
  "i < length ks \<Longrightarrow> transform f ks vs ! i
     = f (group_values ks vs (ks ! i)) ! length (filter (\<lambda>k. k = ks ! i) (take i ks))"
  by (simp add: transform_def)

lemma transform_id:
  assumes "length ks = length vs" and "\<And>k. f (group_values ks vs k) = group_values ks vs k"
  shows "transform f ks vs = vs"
  by (rule nth_equalityI) (simp_all add: assms transform_nth group_values_rank)

subsection \<open>Frames\<close>

lemma and_then_simps [simp]:
  "and_then (Inr x) f = f x" "and_then (Inl e) f = Inl e"
  by (simp_all add: and_then_def)

lemma and_then_Inr_iff: "and_then r f = Inr y \<longleftrightarrow> (\<exists>x. r = Inr x \<and> f x = Inr y)"
  by (cases r) simp_all

lemma get_col_Inr_iff:
  "get_col df c t f = Inr xs \<longleftrightarrow> map_of (columns df) c = Some t \<and> xs = map f (rows df)"
  by (auto simp: get_col_def split: option.splits)

lemma row_eqI:
  fixes x y :: row
  shows "timestamp x = timestamp y \<Longrightarrow> machine_id x = machine_id y \<Longrightarrow> num x = num y \<Longrightarrow>
    score x = score y \<Longrightarrow> flag x = flag y \<Longrightarrow> x = y"
  by simp

lemma rows_eqI:
  fixes a b :: "row list"
  assumes k: "same_keys a b" and n: "\<And>c. map (\<lambda>r. num r c) a = map (\<lambda>r. num r c) b"
  shows "a = b"
proof (rule nth_equalityI)
  show len: "length a = length b" using k unfolding same_keys_def by (metis length_map)
  fix i assume i: "i < length a"
  then have ib: "i < length b" using len by simp
  have "timestamp (a ! i) = timestamp (b ! i)"
    using k i ib nth_map [of i a timestamp] nth_map [of i b timestamp]
    unfolding same_keys_def by simp
  moreover have "machine_id (a ! i) = machine_id (b ! i)"
    using k i ib nth_map [of i a machine_id] nth_map [of i b machine_id]
    unfolding same_keys_def by simp
  moreover have "flag (a ! i) = flag (b ! i)"
    using k i ib nth_map [of i a flag] nth_map [of i b flag]
    unfolding same_keys_def by simp
  moreover have "score (a ! i) = score (b ! i)"
    using k i ib nth_map [of i a score] nth_map [of i b score]
    unfolding same_keys_def by simp
  moreover have "num (a ! i) = num (b ! i)"
  proof
    fix c
    show "num (a ! i) c = num (b ! i) c"
      using n [of c] i ib nth_map [of i a "\<lambda>r. num r c"] nth_map [of i b "\<lambda>r. num r c"] by simp
  qed
  ultimately show "a ! i = b ! i" by (simp add: row_eqI)
qed

lemma same_keys_refl [simp]: "same_keys a a"
  by (simp add: same_keys_def)

lemma same_keys_trans: "same_keys a b \<Longrightarrow> same_keys b c \<Longrightarrow> same_keys a c"
  by (simp add: same_keys_def)

lemma same_keys_length: "same_keys a b \<Longrightarrow> length a = length b"
  unfolding same_keys_def by (metis length_map)

lemma same_keys_set_num:
  "length vs = length (rows df) \<Longrightarrow> same_keys (rows (set_num c vs df)) (rows df)"
  unfolding same_keys_def set_num_def
  by (intro conjI nth_equalityI) simp_all

lemma num_col_set_num:
  "length vs = length (rows df) \<Longrightarrow>
   map (\<lambda>r. num r c') (rows (set_num c vs df)) = (if c' = c then vs else map (\<lambda>r. num r c') (rows df))"
  by (simp add: num_set_num_other num_set_num_same)

lemma columns_set_num_triv:
  "map_of (columns df) c = Some Float \<Longrightarrow> columns (set_num c vs df) = columns df"
  by (simp add: set_num_def update_triv)

subsection \<open>The steps of \<open>clean_data\<close>\<close>

lemma drop_duplicates_Inr_iff:
  "drop_duplicates df = Inr df' \<longleftrightarrow>
     map_of (columns df) ''timestamp'' = Some Datetime \<and>
     map_of (columns df) ''machine_id'' = Some Object \<and>
     df' = df\<lparr>rows := drop_dups (\<lambda>r. (timestamp r, machine_id r)) (rows df)\<rparr>"
  by (auto simp: drop_duplicates_def and_then_Inr_iff get_timestamp_def get_machine_id_def
      get_col_Inr_iff)

lemma sort_values_Inr_iff:
  "sort_values df = Inr df' \<longleftrightarrow>
     map_of (columns df) ''timestamp'' = Some Datetime \<and>
     map_of (columns df) ''machine_id'' = Some Object \<and>
     df' = df\<lparr>rows := sort_key (\<lambda>r. (machine_id r, timestamp r)) (rows df)\<rparr>"
  by (auto simp: sort_values_def and_then_Inr_iff get_timestamp_def get_machine_id_def
      get_col_Inr_iff)

lemma filled_column_Inr_iff:
  "filled_column df c = Inr v \<longleftrightarrow>
     map_of (columns df) ''machine_id'' = Some Object \<and> map_of (columns df) c = Some Float \<and>
     v = fill_series (map machine_id (rows df)) (map (\<lambda>r. num r c) (rows df))"
  by (auto simp: filled_column_def and_then_Inr_iff get_num_def get_machine_id_def
      get_col_Inr_iff)

lemma length_fill_series [simp]: "length (fill_series ks vs) = length ks"
  by (simp add: fill_series_def)

lemma length_clip [simp]: "length (clip lo hi vs) = length vs"
  by (simp add: clip_def)

lemma fill_columns_char:
  assumes "fill_columns src cs df = Inr df'"
    and "length (rows df) = length (rows src)" and "columns df = columns src"
  shows "same_keys (rows df') (rows df) \<and> columns df' = columns src \<and>
     (\<forall>c\<in>set cs. map_of (columns src) c = Some Float) \<and>
     (\<forall>c. map (\<lambda>r. num r c) (rows df') =
        (if c \<in> set cs
         then fill_series (map machine_id (rows src)) (map (\<lambda>r. num r c) (rows src))
         else map (\<lambda>r. num r c) (rows df)))"
  using assms
proof (induction cs arbitrary: df)
  case Nil
  then show ?case by simp
next
  case (Cons a cs)
  let ?v = "fill_series (map machine_id (rows src)) (map (\<lambda>r. num r a) (rows src))"
  let ?df1 = "set_num a ?v df"
  from Cons.prems(1) have fa: "map_of (columns src) a = Some Float"
    and rest: "fill_columns src cs ?df1 = Inr df'"
    by (auto simp: and_then_Inr_iff filled_column_Inr_iff)
  have lv: "length ?v = length (rows df)" using Cons.prems(2) by simp
  have l1: "length (rows ?df1) = length (rows src)" using lv Cons.prems(2) by simp
  have c1: "columns ?df1 = columns src"
    using fa Cons.prems(3) by (simp add: columns_set_num_triv)
  note ih = Cons.IH [OF rest l1 c1]
  have sk: "same_keys (rows df') (rows df)"
    using ih same_keys_set_num [OF lv, of a] by (blast intro: same_keys_trans)
  have "map (\<lambda>r. num r c) (rows df') =
        (if c \<in> set (a # cs)
         then fill_series (map machine_id (rows src)) (map (\<lambda>r. num r c) (rows src))
         else map (\<lambda>r. num r c) (rows df))" for c
    using ih num_col_set_num [OF lv, of c a] by auto
  then show ?case using sk ih fa by simp
qed

lemma fill_columns_ok:
  assumes "map_of (columns src) ''machine_id'' = Some Object"
    and "\<forall>c\<in>set cs. map_of (columns src) c = Some Float"
  shows "\<exists>df'. fill_columns src cs df = Inr df'"
  using assms(2)
proof (induction cs arbitrary: df)
  case Nil
  then show ?case by simp
next
  case (Cons a cs)
  then have "filled_column src a = Inr (fill_series (map machine_id (rows src)) (map (\<lambda>r. num r a) (rows src)))"
    using assms(1) by (simp add: filled_column_Inr_iff)
  then show ?case using Cons by simp
qed

lemma get_num_Inr_iff:
  "get_num df c = Inr vs \<longleftrightarrow> map_of (columns df) c = Some Float \<and> vs = map (\<lambda>r. num r c) (rows df)"
  by (simp add: get_num_def get_col_Inr_iff)

lemma clip_columns_char:
  assumes "clip_columns df rs = Inr df'" and "distinct (map fst rs)"
  shows "same_keys (rows df') (rows df) \<and> columns df' = columns df \<and>
     (\<forall>c\<in>set (map fst rs). map_of (columns df) c = Some Float) \<and>
     (\<forall>c. map (\<lambda>r. num r c) (rows df') =
        (case map_of rs c of
           None \<Rightarrow> map (\<lambda>r. num r c) (rows df)
         | Some (lo, hi) \<Rightarrow> clip lo hi (map (\<lambda>r. num r c) (rows df))))"
  using assms
proof (induction df rs rule: clip_columns.induct)
  case (1 df)
  then show ?case by simp
next
  case (2 df col lo hi ranges)
  let ?vs = "map (\<lambda>r. num r col) (rows df)"
  let ?df1 = "set_num col (clip lo hi ?vs) df"
  from "2.prems"(1) have fa: "map_of (columns df) col = Some Float"
    and rest: "clip_columns ?df1 ranges = Inr df'"
    by (auto simp: and_then_Inr_iff get_num_Inr_iff)
  have gn: "get_num df col = Inr ?vs" using fa by (simp add: get_num_Inr_iff)
  have d: "distinct (map fst ranges)" and nin: "col \<notin> fst ` set ranges"
    using "2.prems"(2) by auto
  have lv: "length (clip lo hi ?vs) = length (rows df)" by simp
  note ih = "2.IH" [of ?vs, OF rest d]
  have c1: "columns ?df1 = columns df" using fa by (simp add: columns_set_num_triv)
  have sk: "same_keys (rows df') (rows df)"
    using ih same_keys_set_num [OF lv, of col] by (blast intro: same_keys_trans)
  have mo: "map_of ranges col = None" using nin by (simp add: map_of_eq_None_iff)
  have "map (\<lambda>r. num r c) (rows df') =
        (case map_of ((col, lo, hi) # ranges) c of
           None \<Rightarrow> map (\<lambda>r. num r c) (rows df)
         | Some (lo, hi) \<Rightarrow> clip lo hi (map (\<lambda>r. num r c) (rows df)))" for c
  proof (cases "c = col")
    case True
    have "map (\<lambda>r. num r c) (rows df') = map (\<lambda>r. num r c) (rows ?df1)"
      using ih mo True by simp
    also have "\<dots> = clip lo hi ?vs" using num_col_set_num [OF lv, of c col] True by simp
    finally show ?thesis using True by simp
  next
    case False
    have e: "map (\<lambda>r. num r c) (rows ?df1) = map (\<lambda>r. num r c) (rows df)"
      using num_col_set_num [OF lv, of c col] False by simp
    have "map (\<lambda>r. num r c) (rows df') =
        (case map_of ranges c of
           None \<Rightarrow> map (\<lambda>r. num r c) (rows ?df1)
         | Some (lo, hi) \<Rightarrow> clip lo hi (map (\<lambda>r. num r c) (rows ?df1)))"
      using ih by blast
    then show ?thesis unfolding e using False by simp
  qed
  moreover have "\<forall>c\<in>set (map fst ((col, lo, hi) # ranges)). map_of (columns df) c = Some Float"
    using ih fa c1 by auto
  ultimately show ?case using sk ih c1 by simp
qed

lemma clip_columns_ok:
  "\<forall>c\<in>set (map fst rs). map_of (columns df) c = Some Float \<Longrightarrow> \<exists>df'. clip_columns df rs = Inr df'"
proof (induction df rs rule: clip_columns.induct)
  case (1 df)
  then show ?case by simp
next
  case (2 df col lo hi ranges)
  let ?vs = "map (\<lambda>r. num r col) (rows df)"
  have gn: "get_num df col = Inr ?vs" using "2.prems" by (simp add: get_num_Inr_iff)
  have "\<forall>c\<in>set (map fst ranges). map_of (columns (set_num col (clip lo hi ?vs) df)) c = Some Float"
    using "2.prems" by simp
  from "2.IH" [of ?vs, OF this] show ?case using gn by simp
qed

lemma dedup_sorted_eq_first_after_sort: "dedup_sorted rs = first_after_sort rs"
  unfolding dedup_sorted_def first_after_sort_def
  by (rule sort_key_drop_dups) auto

lemma numeric_cols_iff: "c \<in> set numeric_cols \<longleftrightarrow> map_of VALUE_RANGES c \<noteq> None"
  by (simp add: numeric_cols_def map_of_eq_None_iff)

lemma distinct_VALUE_RANGES: "distinct (map fst VALUE_RANGES)"
  by (simp add: VALUE_RANGES_def)

lemma has_sensor_schema_cong:
  "columns df' = columns df \<Longrightarrow> has_sensor_schema df' = has_sensor_schema df"
  by (simp add: has_sensor_schema_def)

lemma check_columns_Inr_iff:
  "check_columns df cs = Inr u \<longleftrightarrow> (\<forall>c\<in>set cs. map_of (columns df) c \<noteq> None)"
  by (induction cs) (auto split: option.splits)

lemma fill_missing_Inr_iff:
  "fill_missing df = Inr df' \<longleftrightarrow>
     map_of (columns df) ''machine_id'' = Some Object \<and>
     (\<forall>c\<in>set numeric_cols. map_of (columns df) c \<noteq> None) \<and> rows df \<noteq> [] \<and>
     fill_columns df numeric_cols df = Inr df'"
  by (auto simp: fill_missing_def and_then_Inr_iff get_machine_id_def get_col_Inr_iff
      check_columns_Inr_iff)

lemma fill_missing_empty:
  assumes "has_sensor_schema df" and "rows df = []"
  shows "fill_missing df = Inl (ValueError No_objects_to_concatenate)"
proof -
  have "get_machine_id df = Inr (map machine_id (rows df))"
    using assms(1) by (simp add: get_machine_id_def get_col_ok has_sensor_schema_def)
  moreover have "check_columns df numeric_cols = Inr ()"
    using assms(1) by (simp add: check_columns_Inr_iff has_sensor_schema_def list_all_iff)
  ultimately show ?thesis using assms(2) by (simp add: fill_missing_def)
qed

lemma dedup_sorted_Nil_iff: "dedup_sorted rs = [] \<longleftrightarrow> rs = []"
proof
  let ?k = "\<lambda>r::row. (timestamp r, machine_id r)"
  assume a: "dedup_sorted rs = []"
  have "length (drop_dups ?k rs) = length (dedup_sorted rs)" by (simp add: dedup_sorted_def)
  then have "drop_dups ?k rs = []" using a by simp
  then have "?k ` set rs = {}" using keys_drop_dups [of ?k rs] by simp
  then show "rs = []" by simp
next
  assume "rs = []"
  then show "dedup_sorted rs = []" by (simp add: dedup_sorted_def)
qed

lemma clean_data_char:
  assumes "clean_data df = Inr out"
  shows "has_sensor_schema df" and "columns out = columns df"
    and "same_keys (rows out) (dedup_sorted (rows df))"
    and "map (\<lambda>r. num r c) (rows out) = cleaned_column (dedup_sorted (rows df)) c"
    and "rows df \<noteq> []"
proof -
  from assms obtain df1 df2 df3 where
    s1: "drop_duplicates df = Inr df1" and s2: "sort_values df1 = Inr df2"
    and s3': "fill_missing df2 = Inr df3"
    and s4: "clip_columns df3 VALUE_RANGES = Inr out"
    unfolding clean_data_def and_then_Inr_iff by blast
  from s3' have s3: "fill_columns df2 numeric_cols df2 = Inr df3" and ne: "rows df2 \<noteq> []"
    by (simp_all add: fill_missing_Inr_iff)
  from s1 s2 have ts: "map_of (columns df) ''timestamp'' = Some Datetime"
    and mi: "map_of (columns df) ''machine_id'' = Some Object"
    and c2: "columns df2 = columns df" and r2: "rows df2 = dedup_sorted (rows df)"
    by (auto simp: drop_duplicates_Inr_iff sort_values_Inr_iff dedup_sorted_def)
  note f = fill_columns_char [OF s3 refl refl]
  note c = clip_columns_char [OF s4 distinct_VALUE_RANGES]
  show "rows df \<noteq> []" using ne r2 by (simp add: dedup_sorted_Nil_iff)
  show "has_sensor_schema df"
    using ts mi f c2 by (simp add: has_sensor_schema_def list_all_iff)
  show "columns out = columns df" using c f c2 by simp
  show "same_keys (rows out) (dedup_sorted (rows df))"
    using c f r2 by (auto intro: same_keys_trans)
  have "map (\<lambda>r. num r c) (rows out) =
        (case map_of VALUE_RANGES c of
           None \<Rightarrow> map (\<lambda>r. num r c) (rows df3)
         | Some (lo, hi) \<Rightarrow> clip lo hi (map (\<lambda>r. num r c) (rows df3)))"
    using c by blast
  moreover have "map (\<lambda>r. num r c) (rows df3) =
        (if c \<in> set numeric_cols
         then fill_series (map machine_id (rows df2)) (map (\<lambda>r. num r c) (rows df2))
         else map (\<lambda>r. num r c) (rows df2))"
    using f by blast
  ultimately show "map (\<lambda>r. num r c) (rows out) = cleaned_column (dedup_sorted (rows df)) c"
    unfolding cleaned_column_def r2 numeric_cols_iff by (auto split: option.splits)
qed

lemma clean_data_ok:
  assumes "has_sensor_schema df" and "rows df \<noteq> []"
  shows "\<exists>out. clean_data df = Inr out"
proof -
  from assms have ts: "map_of (columns df) ''timestamp'' = Some Datetime"
    and mi: "map_of (columns df) ''machine_id'' = Some Object"
    and nc: "\<forall>c\<in>set numeric_cols. map_of (columns df) c = Some Float"
    by (simp_all add: has_sensor_schema_def list_all_iff)
  define df1 where "df1 = df\<lparr>rows := drop_dups (\<lambda>r. (timestamp r, machine_id r)) (rows df)\<rparr>"
  define df2 where "df2 = df1\<lparr>rows := sort_key (\<lambda>r. (machine_id r, timestamp r)) (rows df1)\<rparr>"
  have s1: "drop_duplicates df = Inr df1" using ts mi by (simp add: drop_duplicates_Inr_iff df1_def)
  have s2: "sort_values df1 = Inr df2" using ts mi by (simp add: sort_values_Inr_iff df1_def df2_def)
  have c2: "columns df2 = columns df" by (simp add: df1_def df2_def)
  have "rows df2 = dedup_sorted (rows df)" by (simp add: df1_def df2_def dedup_sorted_def)
  then have ne: "rows df2 \<noteq> []" using assms(2) by (simp add: dedup_sorted_Nil_iff)
  obtain df3 where s3: "fill_columns df2 numeric_cols df2 = Inr df3"
    using fill_columns_ok [of df2 numeric_cols df2] mi nc c2 by auto
  have s3': "fill_missing df2 = Inr df3"
    using s3 ne mi nc c2 by (simp add: fill_missing_Inr_iff)
  have "columns df3 = columns df" using fill_columns_char [OF s3 refl refl] c2 by simp
  then have "\<forall>c\<in>set (map fst VALUE_RANGES). map_of (columns df3) c = Some Float"
    using nc by (simp add: numeric_cols_def)
  then obtain out where "clip_columns df3 VALUE_RANGES = Inr out"
    using clip_columns_ok by blast
  then show ?thesis using s1 s2 s3' by (auto simp: clean_data_def)
qed

text \<open>On a table without rows the fill statement raises, whatever the columns are.\<close>

lemma clean_data_empty:
  assumes "has_sensor_schema df" and "rows df = []"
  shows "clean_data df = Inl (ValueError No_objects_to_concatenate)"
proof -
  from assms have ts: "map_of (columns df) ''timestamp'' = Some Datetime"
    and mi: "map_of (columns df) ''machine_id'' = Some Object"
    by (simp_all add: has_sensor_schema_def)
  have s1: "drop_duplicates df = Inr df"
    using ts mi assms(2) by (simp add: drop_duplicates_Inr_iff)
  have s2: "sort_values df = Inr df"
    using ts mi assms(2) by (simp add: sort_values_Inr_iff)
  show ?thesis using s1 s2 fill_missing_empty [OF assms] by (simp add: clean_data_def)
qed

lemma map_pair_zip: "map (\<lambda>r. (f r, g r)) xs = zip (map f xs) (map g xs)"
  by (induction xs) auto

lemma map_pair_keys:
  "map f a = map f b \<Longrightarrow> map g a = map g b \<Longrightarrow> map (\<lambda>r. (f r, g r)) a = map (\<lambda>r. (f r, g r)) b"
  by (simp add: map_pair_zip)

lemma same_keys_sort_key:
  "same_keys a b \<Longrightarrow>
   map (\<lambda>r. (machine_id r, timestamp r)) a = map (\<lambda>r. (machine_id r, timestamp r)) b"
  unfolding same_keys_def by (intro map_pair_keys) simp_all

lemma same_keys_dup_key:
  "same_keys a b \<Longrightarrow>
   map (\<lambda>r. (timestamp r, machine_id r)) a = map (\<lambda>r. (timestamp r, machine_id r)) b"
  unfolding same_keys_def by (intro map_pair_keys) simp_all

lemma distinct_dedup_sorted: "distinct (map (\<lambda>r. (timestamp r, machine_id r)) (dedup_sorted rs))"
proof -
  let ?k = "\<lambda>r::row. (timestamp r, machine_id r)"
  have "distinct (map ?k (drop_dups ?k rs))" by (rule distinct_keys_drop_dups)
  then show ?thesis unfolding dedup_sorted_def by (simp add: distinct_map)
qed

lemma sorted_dedup_sorted: "sorted (map (\<lambda>r. (machine_id r, timestamp r)) (dedup_sorted rs))"
  unfolding dedup_sorted_def by simp

lemma keys_dedup_sorted:
  "set (map (\<lambda>r. (timestamp r, machine_id r)) (dedup_sorted rs))
     = set (map (\<lambda>r. (timestamp r, machine_id r)) rs)"
  unfolding dedup_sorted_def by (simp add: keys_drop_dups)

lemma length_dedup_sorted:
  "length (dedup_sorted rs) = card (set (map (\<lambda>r. (timestamp r, machine_id r)) rs))"
proof -
  have "length (dedup_sorted rs) = length (map (\<lambda>r. (timestamp r, machine_id r)) (dedup_sorted rs))"
    by simp
  also have "\<dots> = card (set (map (\<lambda>r. (timestamp r, machine_id r)) (dedup_sorted rs)))"
    using distinct_dedup_sorted [of rs] by (simp only: distinct_card)
  finally show ?thesis by (simp only: keys_dedup_sorted)
qed

lemma dedup_sorted_fixed:
  assumes "same_keys a (dedup_sorted rs)"
  shows "dedup_sorted a = a"
proof -
  have d: "distinct (map (\<lambda>r. (timestamp r, machine_id r)) a)"
    using same_keys_dup_key [OF assms] distinct_dedup_sorted [of rs] by simp
  have s: "sorted (map (\<lambda>r. (machine_id r, timestamp r)) a)"
    using same_keys_sort_key [OF assms] sorted_dedup_sorted [of rs] by simp
  show ?thesis unfolding dedup_sorted_def
    by (simp add: drop_dups_distinct_id [OF d] sort_key_id_if_sorted [OF s])
qed

text \<open>
  Claim C2. \<open>clean_data\<close> removes the rows that duplicate another row's
  \<open>(timestamp, machine_id)\<close> pair: the pairs of the output are distinct and are the pairs of
  the input. The row kept of each pair is the first one after sorting the table by
  \<open>(machine_id, timestamp)\<close>: the output has the rows of \<open>first_after_sort\<close>, in that order,
  with the sensor columns filled and clipped and every other column as it was. This is
  for every table with the key and sensor columns and at least one row; on a table
  without rows \<open>clean_data\<close> raises (\<open>clean_data_empty\<close>) and there is no output.
\<close>

theorem clean_data_keeps_first_after_sort:
  assumes "has_sensor_schema df" and "rows df \<noteq> []"
  shows "\<exists>out. clean_data df = Inr out \<and>
      distinct (map (\<lambda>r. (timestamp r, machine_id r)) (rows out)) \<and>
      set (map (\<lambda>r. (timestamp r, machine_id r)) (rows out))
        = set (map (\<lambda>r. (timestamp r, machine_id r)) (rows df)) \<and>
      same_keys (rows out) (first_after_sort (rows df)) \<and>
      (\<forall>c. map (\<lambda>r. num r c) (rows out) = cleaned_column (first_after_sort (rows df)) c)"
proof -
  obtain out where out: "clean_data df = Inr out" using clean_data_ok [OF assms] by blast
  note ch = clean_data_char [OF out]
  have k: "map (\<lambda>r. (timestamp r, machine_id r)) (rows out)
      = map (\<lambda>r. (timestamp r, machine_id r)) (dedup_sorted (rows df))"
    using ch(3) by (rule same_keys_dup_key)
  have "distinct (map (\<lambda>r. (timestamp r, machine_id r)) (rows out))"
    unfolding k by (rule distinct_dedup_sorted)
  moreover have "set (map (\<lambda>r. (timestamp r, machine_id r)) (rows out))
        = set (map (\<lambda>r. (timestamp r, machine_id r)) (rows df))"
    unfolding k by (rule keys_dedup_sorted)
  ultimately show ?thesis
    using out ch(3,4) unfolding dedup_sorted_eq_first_after_sort by blast
qed

subsection \<open>Filled columns\<close>

lemma dropna_Nil_iff: "dropna xs = [] \<longleftrightarrow> (\<forall>x\<in>set xs. x = None)"
  by (induction xs rule: dropna.induct) auto

lemma mean_None_iff: "mean xs = None \<longleftrightarrow> (\<forall>x\<in>set xs. x = None)"
  by (simp add: mean_def Let_def dropna_Nil_iff)

lemma fillna_all_Some: "\<forall>x\<in>set xs. x \<noteq> None \<Longrightarrow> fillna c xs = xs"
  unfolding fillna_def by (rule map_idI) (auto split: option.splits)

lemma fillna_None: "fillna None xs = xs"
  unfolding fillna_def by (rule map_idI) (auto split: option.splits)

lemma fill_series_uniform_id:
  assumes "uniform vs" and "length ks = length vs"
  shows "fill_series ks vs = vs"
proof -
  have t: "transform (\<lambda>s. bfill (ffill s)) ks vs = vs"
    using assms by (intro transform_id bfill_ffill_uniform uniform_group_values)
  from assms(1) show ?thesis unfolding uniform_def
  proof
    assume "\<forall>x\<in>set vs. x \<noteq> None"
    then show ?thesis by (simp add: fill_series_def t fillna_all_Some)
  next
    assume "\<forall>x\<in>set vs. x = None"
    then have "mean vs = None" by (simp add: mean_None_iff)
    then show ?thesis by (simp add: fill_series_def t fillna_None)
  qed
qed

lemma uniform_fill_series:
  assumes "length ks = length vs"
  shows "uniform (fill_series ks vs)"
proof (cases "mean vs")
  case None
  then have "\<forall>x\<in>set vs. x = None" by (simp add: mean_None_iff)
  then have u: "uniform vs" by (simp add: uniform_def)
  show ?thesis using fill_series_uniform_id [OF u assms] u by simp
next
  case (Some m)
  then show ?thesis
    by (auto simp: uniform_def fill_series_def fillna_def split: option.splits)
qed

lemma uniform_clip: "uniform vs \<Longrightarrow> uniform (clip lo hi vs)"
  by (auto simp: uniform_def clip_def)

lemma clip_idem: "clip lo hi (clip lo hi vs) = clip lo hi vs"
  by (auto simp: clip_def option.map_comp comp_def intro!: option.map_cong)

lemma cleaned_column_fixed:
  assumes a: "\<And>c. map (\<lambda>r. num r c) a = cleaned_column d c"
    and k: "map machine_id a = map machine_id d"
  shows "cleaned_column a c = map (\<lambda>r. num r c) a"
proof (cases "map_of VALUE_RANGES c")
  case None
  then show ?thesis by (simp add: cleaned_column_def)
next
  case (Some p)
  obtain lo hi where p: "p = (lo, hi)" by (cases p)
  let ?w = "clip lo hi (fill_series (map machine_id d) (map (\<lambda>r. num r c) d))"
  have w: "map (\<lambda>r. num r c) a = ?w" using a [of c] Some p by (simp add: cleaned_column_def)
  have u: "uniform ?w" by (intro uniform_clip uniform_fill_series) simp
  have l: "length (map machine_id a) = length ?w" using k by simp
  have "cleaned_column a c = clip lo hi (fill_series (map machine_id a) ?w)"
    using Some p w by (simp add: cleaned_column_def)
  also have "\<dots> = clip lo hi ?w" using fill_series_uniform_id [OF u l] by simp
  also have "\<dots> = ?w" by (rule clip_idem)
  finally show ?thesis using w by simp
qed

text \<open>
  Claim C7. \<open>clean_data\<close> is idempotent: applied to its own output it returns that output,
  the same rows in the same order with the same values. It returns on every frame with
  the timestamp, machine and sensor columns and at least one row, and its output is such
  a frame again; on a frame without rows it raises (\<open>clean_data_empty\<close>), so there is no
  output to apply it to.
\<close>

theorem clean_data_idempotent:
  assumes "has_sensor_schema df" and "rows df \<noteq> []"
  shows "\<exists>out. clean_data df = Inr out \<and> clean_data out = Inr out"
proof -
  obtain out where out: "clean_data df = Inr out" using clean_data_ok [OF assms] by blast
  note ch = clean_data_char [OF out]
  have "has_sensor_schema out" using has_sensor_schema_cong [OF ch(2)] ch(1) by simp
  moreover have "rows out \<noteq> []"
    using same_keys_length [OF ch(3)] assms(2) dedup_sorted_Nil_iff [of "rows df"] by auto
  ultimately obtain out2 where out2: "clean_data out = Inr out2" using clean_data_ok by blast
  note ch2 = clean_data_char [OF out2]
  have fx: "dedup_sorted (rows out) = rows out" using ch(3) by (rule dedup_sorted_fixed)
  have mk: "map machine_id (rows out) = map machine_id (dedup_sorted (rows df))"
    using ch(3) by (simp add: same_keys_def)
  have "rows out2 = rows out"
  proof (rule rows_eqI)
    show "same_keys (rows out2) (rows out)" using ch2(3) fx by simp
    fix c
    have "map (\<lambda>r. num r c) (rows out2) = cleaned_column (rows out) c"
      using ch2(4) [of c] fx by simp
    also have "\<dots> = map (\<lambda>r. num r c) (rows out)"
      using ch(4) mk by (rule cleaned_column_fixed)
    finally show "map (\<lambda>r. num r c) (rows out2) = map (\<lambda>r. num r c) (rows out)" .
  qed
  moreover have "columns out2 = columns out" using ch2(2) .
  ultimately have "out2 = out" by (intro frame.equality) simp_all
  then show ?thesis using out out2 by simp
qed

lemma has_sensor_schema_raw_example: "has_sensor_schema raw_example"
  by (simp add: has_sensor_schema_def raw_example_def sensor_columns_def numeric_cols_def
      VALUE_RANGES_def)

lemma rows_raw_example: "rows raw_example \<noteq> []"
  by (simp add: raw_example_def)

lemma first_after_sort_raw_example:
  "first_after_sort (rows raw_example)
     = [reading 1 ''M1'' 11 None, reading 1 ''M2'' 13 None, reading 2 ''M2'' 10 (Some 300)]"
  by (simp add: first_after_sort_def raw_example_def reading_def)

theorem clean_data_keeps_first_after_sort_witness:
  "\<exists>out. clean_data raw_example = Inr out \<and>
     map (\<lambda>r. (machine_id r, timestamp r)) (rows out) = [(''M1'', 1), (''M2'', 1), (''M2'', 2)] \<and>
     map (\<lambda>r. num r ''label'') (rows out) = [Some 11, Some 13, Some 10]"
proof -
  obtain out where out: "clean_data raw_example = Inr out"
    and k: "same_keys (rows out) (first_after_sort (rows raw_example))"
    and c: "\<forall>c. map (\<lambda>r. num r c) (rows out) = cleaned_column (first_after_sort (rows raw_example)) c"
    using clean_data_keeps_first_after_sort [OF has_sensor_schema_raw_example rows_raw_example]
    by blast
  have "map (\<lambda>r. (machine_id r, timestamp r)) (rows out) = [(''M1'', 1), (''M2'', 1), (''M2'', 2)]"
    using same_keys_sort_key [OF k] by (simp add: first_after_sort_raw_example reading_def)
  moreover have "map (\<lambda>r. num r ''label'') (rows out) = [Some 11, Some 13, Some 10]"
    using c by (simp add: first_after_sort_raw_example cleaned_column_def VALUE_RANGES_def reading_def)
  ultimately show ?thesis using out by (intro exI [of _ out] conjI) (assumption+)
qed

theorem clean_data_idempotent_witness:
  "\<exists>out. clean_data raw_example = Inr out \<and> clean_data out = Inr out \<and> length (rows out) = 3"
proof -
  obtain out where out: "clean_data raw_example = Inr out" and i: "clean_data out = Inr out"
    using clean_data_idempotent [OF has_sensor_schema_raw_example rows_raw_example] by blast
  have "length (rows out) = length (dedup_sorted (rows raw_example))"
    using clean_data_char(3) [OF out] by (rule same_keys_length)
  also have "\<dots> = 3"
    by (simp add: dedup_sorted_eq_first_after_sort first_after_sort_raw_example)
  finally show ?thesis using out i by (intro exI [of _ out] conjI) (assumption+)
qed

lemma has_sensor_schema_dead_sensor: "has_sensor_schema dead_sensor_example"
  by (simp add: has_sensor_schema_def dead_sensor_example_def sensor_columns_def numeric_cols_def
      VALUE_RANGES_def)

lemma dedup_sorted_dead_sensor:
  "dedup_sorted (rows dead_sensor_example)
     = [without_temperature (reading 1 ''M1'' 0 (Some 5)),
        without_temperature (reading 2 ''M1'' 0 (Some 6))]"
  by (simp add: dedup_sorted_def dead_sensor_example_def reading_def without_temperature_def)

lemma fill_series_all_missing: "fill_series [''M1'', ''M1''] [None, None] = [None, None]"
  by (rule fill_series_uniform_id) (simp_all add: uniform_def)

lemma fill_series_complete: "fill_series [''M1'', ''M1''] [Some 5, Some 6] = [Some 5, Some 6]"
  by (rule fill_series_uniform_id) (simp_all add: uniform_def)

text \<open>
  Claim C4, at a table with all required columns whose temperature column holds no number:
  \<open>clean_data\<close> returns, and the temperature of every row of its output is still missing
  (there is no column mean to fill with), while the pressure column is complete and in
  range. The output does not satisfy "no sensor value is null".
\<close>

theorem clean_data_dead_sensor_stays_null:
  "\<exists>out. clean_data dead_sensor_example = Inr out \<and>
     map (\<lambda>r. num r ''temperature_c'') (rows out) = [None, None] \<and>
     map (\<lambda>r. num r ''pressure_bar'') (rows out) = [Some 5, Some 6]"
proof -
  obtain out where out: "clean_data dead_sensor_example = Inr out"
    using clean_data_ok [OF has_sensor_schema_dead_sensor] by (auto simp: dead_sensor_example_def)
  have "map (\<lambda>r. num r ''temperature_c'') (rows out)
      = cleaned_column (dedup_sorted (rows dead_sensor_example)) ''temperature_c''"
    using out by (rule clean_data_char)
  also have "\<dots> = [None, None]"
    by (simp add: dedup_sorted_dead_sensor cleaned_column_def VALUE_RANGES_def reading_def
        without_temperature_def numeric_cols_def fill_series_all_missing clip_def)
  finally have t: "map (\<lambda>r. num r ''temperature_c'') (rows out) = [None, None]" .
  have "map (\<lambda>r. num r ''pressure_bar'') (rows out)
      = cleaned_column (dedup_sorted (rows dead_sensor_example)) ''pressure_bar''"
    using out by (rule clean_data_char)
  also have "\<dots> = [Some 5, Some 6]"
    by (simp add: dedup_sorted_dead_sensor cleaned_column_def VALUE_RANGES_def reading_def
        without_temperature_def numeric_cols_def fill_series_complete clip_def)
  finally show ?thesis using out t by (intro exI [of _ out] conjI) (assumption+)
qed

text \<open>What \<open>clean_data\<close> does guarantee: the row count is that of the deduplicated input,
  every number in a sensor column lies in the sensor's range, and a sensor column with at
  least one number among the retained rows has no missing value left.\<close>

lemma map_of_VALUE_RANGES_le: "map_of VALUE_RANGES c = Some (lo, hi) \<Longrightarrow> lo \<le> hi"
  by (auto simp: VALUE_RANGES_def split: if_splits)

lemma clip_in_range:
  assumes "lo \<le> hi" and "Some x \<in> set (clip lo hi vs)"
  shows "lo \<le> x \<and> x \<le> hi"
proof -
  from assms(2) obtain v where v: "Some x = map_option (\<lambda>x. min (max x lo) hi) v"
    by (auto simp: clip_def)
  obtain y where "x = min (max y lo) hi" using v by (cases v) auto
  then show ?thesis using assms(1) by auto
qed

lemma clip_None_iff: "None \<in> set (clip lo hi vs) \<longleftrightarrow> None \<in> set vs"
  by (auto simp: clip_def image_iff)

lemma fill_series_no_None:
  assumes "length ks = length vs" and "\<exists>x. Some x \<in> set vs"
  shows "None \<notin> set (fill_series ks vs)"
proof -
  from assms(2) have "mean vs \<noteq> None" by (auto simp: mean_None_iff)
  then obtain m where "mean vs = Some m" by auto
  then show ?thesis by (auto simp: fill_series_def fillna_def split: option.splits)
qed

lemma clean_data_postcondition:
  assumes "clean_data df = Inr out"
  shows "length (rows out) = length (drop_dups (\<lambda>r. (timestamp r, machine_id r)) (rows df))"
    and "map_of VALUE_RANGES c = Some (lo, hi) \<Longrightarrow> r \<in> set (rows out) \<Longrightarrow> num r c = Some x \<Longrightarrow>
           lo \<le> x \<and> x \<le> hi"
    and "c \<in> set numeric_cols \<Longrightarrow>
           \<exists>r\<in>set (drop_dups (\<lambda>r. (timestamp r, machine_id r)) (rows df)). num r c \<noteq> None \<Longrightarrow>
           r \<in> set (rows out) \<Longrightarrow> num r c \<noteq> None"
proof -
  note ch = clean_data_char [OF assms]
  let ?d = "dedup_sorted (rows df)"
  show "length (rows out) = length (drop_dups (\<lambda>r. (timestamp r, machine_id r)) (rows df))"
    using same_keys_length [OF ch(3)] by (simp add: dedup_sorted_def)
  {
    assume m: "map_of VALUE_RANGES c = Some (lo, hi)" and r: "r \<in> set (rows out)"
      and x: "num r c = Some x"
    have "Some x \<in> set (map (\<lambda>r. num r c) (rows out))" using r x by force
    then have "Some x \<in> set (clip lo hi (fill_series (map machine_id ?d) (map (\<lambda>r. num r c) ?d)))"
      using ch(4) [of c] m by (simp add: cleaned_column_def)
    then show "lo \<le> x \<and> x \<le> hi" using clip_in_range map_of_VALUE_RANGES_le [OF m] by blast
  }
  {
    assume c: "c \<in> set numeric_cols"
      and e: "\<exists>r\<in>set (drop_dups (\<lambda>r. (timestamp r, machine_id r)) (rows df)). num r c \<noteq> None"
      and r: "r \<in> set (rows out)"
    from c obtain lo hi where m: "map_of VALUE_RANGES c = Some (lo, hi)"
      by (auto simp: numeric_cols_iff)
    from e have "\<exists>x. Some x \<in> set (map (\<lambda>r. num r c) ?d)"
      by (force simp: dedup_sorted_def)
    then have "None \<notin> set (fill_series (map machine_id ?d) (map (\<lambda>r. num r c) ?d))"
      by (intro fill_series_no_None) simp_all
    then have "None \<notin> set (map (\<lambda>r. num r c) (rows out))"
      using ch(4) [of c] m by (simp add: cleaned_column_def clip_None_iff)
    then show "num r c \<noteq> None" using r by force
  }
qed

subsection \<open>Combiner\<close>

lemma get_flag_Inr_iff:
  "get_flag df c = Inr bs \<longleftrightarrow> map_of (columns df) c = Some Bool \<and> bs = map (\<lambda>r. flag r c) (rows df)"
  by (simp add: get_flag_def get_col_Inr_iff)

lemma rows_set_flag:
  "length bs = length (rows df) \<Longrightarrow> i < length (rows df) \<Longrightarrow>
   rows (set_flag c bs df) ! i = (rows df ! i)\<lparr>flag := (flag (rows df ! i))(c := bs ! i)\<rparr>"
  by (simp add: set_flag_def)

lemma length_rows_set_flag [simp]:
  "length (rows (set_flag c bs df)) = min (length (rows df)) (length bs)"
  by (simp add: set_flag_def)

text \<open>
  Claim C3. On a frame with the boolean columns \<open>anomaly_zscore\<close> and \<open>anomaly_iqr\<close>,
  \<open>combined_anomaly_score\<close> returns the frame in which every row has got
  \<open>anomaly_combined = anomaly_zscore \<or> anomaly_iqr\<close>, computed from that row alone and
  with nothing else changed; so in its output the equation holds on every row, exactly.
\<close>

theorem combined_anomaly_score_is_or:
  assumes "map_of (columns df) ''anomaly_zscore'' = Some Bool"
    and "map_of (columns df) ''anomaly_iqr'' = Some Bool"
  shows "\<exists>out. combined_anomaly_score df = Inr out \<and>
      rows out = map (\<lambda>r. r\<lparr>flag := (flag r)
          (''anomaly_combined'' := flag r ''anomaly_zscore'' \<or> flag r ''anomaly_iqr'')\<rparr>) (rows df) \<and>
      (\<forall>r\<in>set (rows out).
          flag r ''anomaly_combined'' = (flag r ''anomaly_zscore'' \<or> flag r ''anomaly_iqr''))"
proof -
  let ?bs = "map2 (\<or>) (map (\<lambda>r. flag r ''anomaly_zscore'') (rows df))
                        (map (\<lambda>r. flag r ''anomaly_iqr'') (rows df))"
  let ?out = "set_flag ''anomaly_combined'' ?bs df"
  have out: "combined_anomaly_score df = Inr ?out"
    using assms by (simp add: combined_anomaly_score_def get_flag_def get_col_ok)
  have r: "rows ?out = map (\<lambda>r. r\<lparr>flag := (flag r)
          (''anomaly_combined'' := flag r ''anomaly_zscore'' \<or> flag r ''anomaly_iqr'')\<rparr>) (rows df)"
    by (rule nth_equalityI) (simp_all add: rows_set_flag)
  have "\<forall>r\<in>set (rows ?out).
          flag r ''anomaly_combined'' = (flag r ''anomaly_zscore'' \<or> flag r ''anomaly_iqr'')"
    unfolding r by simp
  with out r show ?thesis by (intro exI [of _ ?out] conjI)
qed

theorem combined_anomaly_score_is_or_witness:
  "\<exists>out. combined_anomaly_score flags_example = Inr out \<and>
     map (\<lambda>r. flag r ''anomaly_combined'') (rows out) = [False, True, True, True]"
proof -
  have z: "map_of (columns flags_example) ''anomaly_zscore'' = Some Bool"
    and i: "map_of (columns flags_example) ''anomaly_iqr'' = Some Bool"
    by (simp_all add: flags_example_def)
  obtain out where out: "combined_anomaly_score flags_example = Inr out"
    and r: "rows out = map (\<lambda>r. r\<lparr>flag := (flag r)
          (''anomaly_combined'' := flag r ''anomaly_zscore'' \<or> flag r ''anomaly_iqr'')\<rparr>)
          (rows flags_example)"
    using combined_anomaly_score_is_or [OF z i] by blast
  have "map (\<lambda>r. flag r ''anomaly_combined'') (rows out) = [False, True, True, True]"
    unfolding r by (simp add: flags_example_def)
  with out show ?thesis by (intro exI [of _ out] conjI)
qed

subsection \<open>IQR scorer\<close>

lemma bound_arith:
  "\<lparr>lower = fsub q1 (fmul (Some m) (fsub q3 q1)), upper = fadd q3 (fmul (Some m) (fsub q3 q1))\<rparr>
   = (case (q1, q3) of
        (Some a, Some b) \<Rightarrow> \<lparr>lower = Some (a - m * (b - a)), upper = Some (b + m * (b - a))\<rparr>
      | _ \<Rightarrow> \<lparr>lower = None, upper = None\<rparr>)"
  by (cases q1; cases q3) simp_all

lemma quantile_percentile:
  assumes q: "0 \<le> q" "q \<le> 1" and ne: "dropna xs \<noteq> []"
  shows "quantile xs q = Some (percentile (dropna xs) q)"
proof -
  define v where "v = sort (dropna xs)"
  define n where "n = length (dropna xs)"
  define h where "h = q * real (n - 1)"
  define g where "g = h - real_of_int \<lfloor>h\<rfloor>"
  have h0: "0 \<le> h" using q(1) by (simp add: h_def)
  have hn: "h \<le> real (n - 1)"
    using q(2) mult_right_mono [of q 1 "real (n - 1)"] by (simp add: h_def)
  have eq: "v ! nat \<lfloor>h\<rfloor> + (v ! min (nat \<lfloor>h\<rfloor> + 1) (n - 1) - v ! nat \<lfloor>h\<rfloor>) * g
      = (1 - g) * v ! nat \<lfloor>h\<rfloor> + g * v ! nat \<lceil>h\<rceil>"
  proof (cases "g = 0")
    case True
    then show ?thesis by simp
  next
    case False
    then have ni: "h \<noteq> real_of_int \<lfloor>h\<rfloor>" by (simp add: g_def)
    then have c: "\<lceil>h\<rceil> = \<lfloor>h\<rfloor> + 1" by (metis ceiling_altdef of_int_floor_cancel)
    have "h \<noteq> real (n - 1)" using ni by (metis floor_of_nat of_int_of_nat_eq)
    then have "h < real (n - 1)" using hn by simp
    then have "\<lfloor>h\<rfloor> < int (n - 1)" by (simp add: floor_less_iff)
    then have "nat \<lfloor>h\<rfloor> + 1 \<le> n - 1" using h0 by linarith
    then have m: "min (nat \<lfloor>h\<rfloor> + 1) (n - 1) = nat \<lceil>h\<rceil>"
      using c h0 by (simp add: nat_add_distrib)
    show ?thesis unfolding m by (simp add: algebra_simps)
  qed
  have "quantile xs q = Some (v ! nat \<lfloor>h\<rfloor> + (v ! min (nat \<lfloor>h\<rfloor> + 1) (n - 1) - v ! nat \<lfloor>h\<rfloor>) * g)"
    using ne h0 [unfolded h_def n_def] length_sort [of "\<lambda>x. x" "dropna xs"]
    by (auto simp: quantile_def Let_def v_def n_def h_def g_def simp del: length_sort)
  also have "\<dots> = Some (percentile (dropna xs) q)"
    unfolding eq by (simp add: percentile_def Let_def v_def n_def h_def g_def)
  finally show ?thesis .
qed

lemma quantile_None: "dropna xs = [] \<Longrightarrow> quantile xs q = None"
  by (simp add: quantile_def)

text \<open>The bounds of the spec, by the quantiles of the code.\<close>

lemma tukey_bound_quantile:
  "tukey_bound vs m =
     (case (quantile vs (25 / 100), quantile vs (75 / 100)) of
        (Some q1, Some q3) \<Rightarrow>
          \<lparr>lower = Some (q1 - m * (q3 - q1)), upper = Some (q3 + m * (q3 - q1))\<rparr>
      | _ \<Rightarrow> \<lparr>lower = None, upper = None\<rparr>)"
proof (cases "dropna vs = []")
  case True
  then show ?thesis by (simp add: tukey_bound_def quantile_None)
next
  case False
  have "quantile vs (25 / 100) = Some (percentile (dropna vs) (25 / 100))"
    "quantile vs (75 / 100) = Some (percentile (dropna vs) (75 / 100))"
    using False by (simp_all add: quantile_percentile)
  then show ?thesis using False by (simp add: tukey_bound_def Let_def)
qed

lemma strictly_outside_code: "(flt v (lower b) \<or> flt (upper b) v) = strictly_outside v b"
  by (cases v; cases "lower b"; cases "upper b") (simp_all add: strictly_outside_def)

lemma iqr_bounds_loop_char:
  assumes "\<forall>c\<in>set cols. map_of (columns df) c = Some Float"
  shows "\<exists>bounds. iqr_bounds_loop df m cols b0 = Inr bounds \<and>
     (\<forall>c. bounds c = (if c \<in> set cols
                       then Some (tukey_bound (map (\<lambda>r. num r c) (rows df)) m) else b0 c))"
  using assms
proof (induction cols arbitrary: b0)
  case Nil
  then show ?case by simp
next
  case (Cons a cols)
  let ?vs = "map (\<lambda>r. num r a) (rows df)"
  let ?b1 = "b0(a \<mapsto> tukey_bound ?vs m)"
  have gn: "get_num df a = Inr ?vs" using Cons.prems by (simp add: get_num_Inr_iff)
  have rest: "\<forall>c\<in>set cols. map_of (columns df) c = Some Float" using Cons.prems by simp
  obtain bounds where b: "iqr_bounds_loop df m cols ?b1 = Inr bounds"
    and c: "\<forall>c. bounds c = (if c \<in> set cols
                       then Some (tukey_bound (map (\<lambda>r. num r c) (rows df)) m) else ?b1 c)"
    using Cons.IH [OF rest, of ?b1] by blast
  have "iqr_bounds_loop df m (a # cols) b0 = Inr bounds"
    using gn b by (simp add: Let_def tukey_bound_quantile bound_arith)
  moreover have "\<forall>c. bounds c = (if c \<in> set (a # cols)
                       then Some (tukey_bound (map (\<lambda>r. num r c) (rows df)) m) else b0 c)"
    using c by auto
  ultimately show ?case by blast
qed

lemma iqr_masks_char:
  assumes "\<forall>c\<in>set cols. map_of (columns df) c = Some Float \<and> bounds c \<noteq> None"
  shows "\<exists>masks. iqr_masks df bounds cols ms0 = Inr masks \<and>
     (distinct (map fst ms0) \<longrightarrow> distinct (map fst masks)) \<and>
     (\<forall>c. map_of masks c = (if c \<in> set cols
        then Some (map (\<lambda>r. strictly_outside (num r c) (the (bounds c))) (rows df))
        else map_of ms0 c))"
  using assms
proof (induction cols arbitrary: ms0)
  case Nil
  then show ?case by simp
next
  case (Cons a cols)
  let ?vs = "map (\<lambda>r. num r a) (rows df)"
  from Cons.prems obtain b where ba: "bounds a = Some b" by auto
  let ?m1 = "AList.update a (map (\<lambda>v. strictly_outside v b) ?vs) ms0"
  have gn: "get_num df a = Inr ?vs" using Cons.prems by (simp add: get_num_Inr_iff)
  have rest: "\<forall>c\<in>set cols. map_of (columns df) c = Some Float \<and> bounds c \<noteq> None"
    using Cons.prems by simp
  obtain masks where m: "iqr_masks df bounds cols ?m1 = Inr masks"
    and d: "distinct (map fst ?m1) \<longrightarrow> distinct (map fst masks)"
    and c: "\<forall>c. map_of masks c = (if c \<in> set cols
        then Some (map (\<lambda>r. strictly_outside (num r c) (the (bounds c))) (rows df))
        else map_of ?m1 c)"
    using Cons.IH [OF rest, of ?m1] by blast
  have "iqr_masks df bounds (a # cols) ms0 = Inr masks"
    using gn m ba by (simp add: strictly_outside_code)
  moreover have "distinct (map fst ms0) \<longrightarrow> distinct (map fst masks)"
    using d distinct_update [of ms0 a] by blast
  moreover have "\<forall>c. map_of masks c = (if c \<in> set (a # cols)
        then Some (map (\<lambda>r. strictly_outside (num r c) (the (bounds c))) (rows df))
        else map_of ms0 c)"
    using c ba by (auto simp: update_conv' comp_def)
  ultimately show ?case by blast
qed

lemma any_axis1_nth:
  "i < n \<Longrightarrow> any_axis1 n masks ! i = (\<exists>m\<in>set masks. snd m ! i)"
  by (simp add: any_axis1_def list_ex_iff)

lemma length_any_axis1 [simp]: "length (any_axis1 n masks) = n"
  by (simp add: any_axis1_def)

lemma flag_iqr_anomalies_char:
  assumes "\<forall>c\<in>set cols. map_of (columns df) c = Some Float \<and> bounds c \<noteq> None"
  shows "\<exists>out. flag_iqr_anomalies df bounds cols = Inr out \<and>
     length (rows out) = length (rows df) \<and>
     map_of (columns out) = (map_of (columns df))(''anomaly_iqr'' \<mapsto> Bool) \<and>
     (\<forall>i<length (rows df).
        rows out ! i = (rows df ! i)\<lparr>flag := (flag (rows df ! i))(''anomaly_iqr'' :=
          (\<exists>c\<in>set cols. strictly_outside (num (rows df ! i) c) (the (bounds c))))\<rparr>)"
proof -
  obtain masks where m: "iqr_masks df bounds cols [] = Inr masks"
    and d: "distinct (map fst masks)"
    and c: "\<forall>c. map_of masks c = (if c \<in> set cols
        then Some (map (\<lambda>r. strictly_outside (num r c) (the (bounds c))) (rows df))
        else None)"
    using iqr_masks_char [OF assms, of "[]"] by auto
  let ?bs = "any_axis1 (length (rows df)) masks"
  let ?out = "set_flag ''anomaly_iqr'' ?bs df"
  have out: "flag_iqr_anomalies df bounds cols = Inr ?out"
    using m by (simp add: flag_iqr_anomalies_def)
  have bs: "?bs ! i = (\<exists>c\<in>set cols. strictly_outside (num (rows df ! i) c) (the (bounds c)))"
    if i: "i < length (rows df)" for i
  proof -
    have "(\<exists>m\<in>set masks. snd m ! i)
        = (\<exists>c\<in>set cols. strictly_outside (num (rows df ! i) c) (the (bounds c)))"
    proof
      assume "\<exists>m\<in>set masks. snd m ! i"
      then obtain k v where kv: "(k, v) \<in> set masks" "v ! i" by auto
      then have "map_of masks k = Some v" using d by simp
      with c have "k \<in> set cols"
        and "v = map (\<lambda>r. strictly_outside (num r k) (the (bounds k))) (rows df)"
        by (auto split: if_splits)
      then show "\<exists>c\<in>set cols. strictly_outside (num (rows df ! i) c) (the (bounds c))"
        using kv(2) i by auto
    next
      assume "\<exists>c\<in>set cols. strictly_outside (num (rows df ! i) c) (the (bounds c))"
      then obtain k where k: "k \<in> set cols"
        "strictly_outside (num (rows df ! i) k) (the (bounds k))" by auto
      let ?v = "map (\<lambda>r. strictly_outside (num r k) (the (bounds k))) (rows df)"
      have "map_of masks k = Some ?v" using c k(1) by simp
      then have "(k, ?v) \<in> set masks" by (rule map_of_SomeD)
      moreover have "?v ! i" using k(2) i by simp
      ultimately show "\<exists>m\<in>set masks. snd m ! i" by force
    qed
    then show ?thesis using i by (simp add: any_axis1_nth)
  qed
  have "\<forall>i<length (rows df).
        rows ?out ! i = (rows df ! i)\<lparr>flag := (flag (rows df ! i))(''anomaly_iqr'' :=
          (\<exists>c\<in>set cols. strictly_outside (num (rows df ! i) c) (the (bounds c))))\<rparr>"
    using bs by (simp add: rows_set_flag)
  moreover have "length (rows ?out) = length (rows df)" by simp
  moreover have "map_of (columns ?out) = (map_of (columns df))(''anomaly_iqr'' \<mapsto> Bool)" by simp
  ultimately show ?thesis using out by (intro exI [of _ ?out] conjI)
qed





subsection \<open>Rolling statistics and differences of a series\<close>

lemma window_eq_trailing:
  assumes "k < length p"
  shows "window w p k = trailing w p k"
  unfolding window_def trailing_def
proof (rule nth_equalityI)
  show "length (drop (Suc k - w) (take (Suc k) p)) = length (map ((!) p) [Suc k - w..<Suc k])"
    using assms by (simp del: upt_Suc)
  fix i assume "i < length (drop (Suc k - w) (take (Suc k) p))"
  then have i: "i < Suc k - (Suc k - w)" using assms by simp
  then have lt: "Suc k - w + i < Suc k" by simp
  have "Suc k - w \<le> length (take (Suc k) p)" using assms by simp
  then have "drop (Suc k - w) (take (Suc k) p) ! i = take (Suc k) p ! (Suc k - w + i)"
    by (rule nth_drop)
  also have "\<dots> = p ! (Suc k - w + i)" using lt by (rule nth_take)
  also have "\<dots> = map ((!) p) [Suc k - w..<Suc k] ! i"
    using nth_map_upt [OF i, of "(!) p"] by simp
  finally show "drop (Suc k - w) (take (Suc k) p) ! i = map ((!) p) [Suc k - w..<Suc k] ! i" .
qed

lemma dropna_map_Some [simp]: "dropna (map Some xs) = xs"
  by (induction xs) auto

lemma no_None_map_Some: "None \<notin> set g \<Longrightarrow> g = map Some (dropna g)"
  by (induction g rule: dropna.induct) auto

lemma length_dropna_no_None: "None \<notin> set g \<Longrightarrow> length (dropna g) = length g"
  by (induction g rule: dropna.induct) auto

lemma window_map: "window w (map f xs) i = map f (window w xs i)"
  by (simp add: window_def take_map drop_map)

lemma length_window: "i < length xs \<Longrightarrow> length (window w xs i) = min (Suc i) w"
  by (auto simp: window_def)

lemma length_rolling [simp]: "length (rolling w agg xs) = length xs"
  by (simp add: rolling_def)

lemma rolling_nth: "i < length xs \<Longrightarrow> rolling w agg xs ! i = agg (window w xs i)"
  by (simp add: rolling_def)

lemma mean_map_Some: "w \<noteq> [] \<Longrightarrow> mean (map Some w) = Some (sum_list w / real (length w))"
  by (simp add: mean_def)

lemma std_map_Some:
  "std (map Some w) = (if length w < 2 then None else Some (sample_std w))"
  by (simp add: std_def var_def sample_std_def Let_def)

lemma fillna_nth:
  "i < length xs \<Longrightarrow> fillna c xs ! i = (case xs ! i of None \<Rightarrow> c | Some x \<Rightarrow> Some x)"
  by (simp add: fillna_def)

lemma length_diff [simp]: "length (diff xs) = length xs"
  by (cases xs) simp_all

lemma diff_nth:
  "i < length xs \<Longrightarrow> diff xs ! i = (if i = 0 then None else fsub (xs ! i) (xs ! (i - 1)))"
proof (cases xs)
  case Nil
  then show "i < length xs \<Longrightarrow> ?thesis" by simp
next
  case (Cons x ys)
  assume "i < length xs"
  then show ?thesis using Cons by (cases i) simp_all
qed

lemma group_values_rows:
  "group_values (map machine_id rs) (map f rs) k = map f (filter (\<lambda>r. machine_id r = k) rs)"
  by (induction rs) (auto simp: group_values_def)

lemma rank_rows:
  "i < length rs \<Longrightarrow>
   length (filter (\<lambda>k. k = map machine_id rs ! i) (take i (map machine_id rs)))
     = position_in_partition rs i"
proof -
  assume i: "i < length rs"
  have "filter (\<lambda>k. k = machine_id (rs ! i)) (map machine_id (take i rs))
      = map machine_id (filter (\<lambda>r. machine_id r = machine_id (rs ! i)) (take i rs))"
    by (simp add: filter_map comp_def)
  then show ?thesis using i
    by (simp add: position_in_partition_def take_map)
qed

text \<open>The value a grouped transform gives row \<open>i\<close>, for a series without missing values.\<close>

lemma transform_rows_nth:
  assumes i: "i < length rs" and nn: "\<forall>r\<in>set rs. num r c \<noteq> None"
  shows "transform F (map machine_id rs) (map (\<lambda>r. num r c) rs) ! i
      = F (map Some (partition_of rs c i)) ! position_in_partition rs i"
    and "position_in_partition rs i < length (partition_of rs c i)"
    and "partition_of rs c i ! position_in_partition rs i = the (num (rs ! i) c)"
proof -
  let ?ks = "map machine_id rs" and ?vs = "map (\<lambda>r. num r c) rs"
  let ?g = "group_values ?ks ?vs (?ks ! i)"
  have g: "?g = map (\<lambda>r. num r c) (filter (\<lambda>r. machine_id r = machine_id (rs ! i)) rs)"
    using i by (simp add: group_values_rows)
  have "None \<notin> set ?g" unfolding g using nn by auto
  then have gs: "?g = map Some (partition_of rs c i)"
    and gl: "length (partition_of rs c i) = length ?g"
    unfolding partition_of_def g [symmetric]
    by (simp_all add: no_None_map_Some [symmetric] length_dropna_no_None)
  have il: "i < length ?ks" "length ?ks = length ?vs" using i by simp_all
  note gr = group_values_rank [OF il(2) il(1)]
  show "transform F ?ks ?vs ! i = F (map Some (partition_of rs c i)) ! position_in_partition rs i"
    using il(1) gs rank_rows [OF i] by (simp add: transform_nth)
  show lt: "position_in_partition rs i < length (partition_of rs c i)"
    using gr(2) gl rank_rows [OF i] by simp
  have "?g ! position_in_partition rs i = ?vs ! i" using gr(1) rank_rows [OF i] by simp
  then have "Some (partition_of rs c i ! position_in_partition rs i) = num (rs ! i) c"
    using gs lt i by (metis nth_map)
  then show "partition_of rs c i ! position_in_partition rs i = the (num (rs ! i) c)"
    by (metis option.sel)
qed

lemma rolling_mean_Some_nth:
  assumes "k < length p" and "0 < w"
  shows "window w p k \<noteq> []"
    and "rolling w mean (map Some p) ! k
     = Some (sum_list (window w p k) / real (length (window w p k)))"
proof -
  have "length (window w p k) = min (Suc k) w" using assms(1) by (rule length_window)
  then have "length (window w p k) \<noteq> 0" using assms(2) by simp
  then show ne: "window w p k \<noteq> []" by simp
  show "rolling w mean (map Some p) ! k
     = Some (sum_list (window w p k) / real (length (window w p k)))"
    using assms(1) mean_map_Some [OF ne] by (simp add: rolling_nth window_map)
qed

lemma rolling_std_Some_nth:
  assumes "k < length p"
  shows "fillna (Some 0) (rolling w std (map Some p)) ! k
     = Some (if length (window w p k) < 2 then 0 else sample_std (window w p k))"
  using assms by (simp add: fillna_nth rolling_nth window_map std_map_Some)

lemma diff_Some_nth:
  assumes "k < length p"
  shows "fillna (Some 0) (diff (map Some p)) ! k
     = Some (if k = 0 then 0 else p ! k - p ! (k - 1))"
  using assms by (simp add: fillna_nth diff_nth)

subsection \<open>The loop of \<open>engineer_features\<close>\<close>

lemma suffix_names_neq [simp]:
  "c @ ''_roll_mean'' \<noteq> c' @ ''_roll_std''" "c @ ''_roll_std'' \<noteq> c' @ ''_roll_mean''"
  "c @ ''_roll_mean'' \<noteq> c' @ ''_diff''" "c @ ''_diff'' \<noteq> c' @ ''_roll_mean''"
  "c @ ''_roll_std'' \<noteq> c' @ ''_diff''" "c @ ''_diff'' \<noteq> c' @ ''_roll_std''"
proof -
  have l: "last (c @ ''_roll_mean'') = CHR ''n''" "last (c @ ''_roll_std'') = CHR ''d''"
    "last (c @ ''_diff'') = CHR ''f''" for c by simp_all
  show "c @ ''_roll_mean'' \<noteq> c' @ ''_roll_std''" using l(1) [of c] l(2) [of c'] by auto
  show "c @ ''_roll_std'' \<noteq> c' @ ''_roll_mean''" using l(2) [of c] l(1) [of c'] by auto
  show "c @ ''_roll_mean'' \<noteq> c' @ ''_diff''" using l(1) [of c] l(3) [of c'] by auto
  show "c @ ''_diff'' \<noteq> c' @ ''_roll_mean''" using l(3) [of c] l(1) [of c'] by auto
  show "c @ ''_roll_std'' \<noteq> c' @ ''_diff''" using l(2) [of c] l(3) [of c'] by auto
  show "c @ ''_diff'' \<noteq> c' @ ''_roll_std''" using l(3) [of c] l(2) [of c'] by auto
qed

lemma feature_name_neq_machine_id [simp]:
  "c @ ''_roll_mean'' \<noteq> ''machine_id''" "c @ ''_roll_std'' \<noteq> ''machine_id''"
  "c @ ''_diff'' \<noteq> ''machine_id''"
proof -
  have "take 2 (rev (c @ ''_roll_mean'')) \<noteq> take 2 (rev ''machine_id'')" by simp
  then show "c @ ''_roll_mean'' \<noteq> ''machine_id''" by metis
  have "take 2 (rev (c @ ''_roll_std'')) \<noteq> take 2 (rev ''machine_id'')" by simp
  then show "c @ ''_roll_std'' \<noteq> ''machine_id''" by metis
  have "take 2 (rev (c @ ''_diff'')) \<noteq> take 2 (rev ''machine_id'')" by simp
  then show "c @ ''_diff'' \<noteq> ''machine_id''" by metis
qed

lemma in_feature_names:
  "n \<in> set (feature_names cols) \<longleftrightarrow>
     (\<exists>c\<in>set cols. n = c @ ''_roll_mean'' \<or> n = c @ ''_roll_std'' \<or> n = c @ ''_diff'')"
  by (auto simp: feature_names_def)

lemma add_features_Cons:
  "add_features df (a # cols) = Inr out \<longleftrightarrow>
     map_of (columns df) ''machine_id'' = Some Object \<and> map_of (columns df) a = Some Float \<and>
     add_features
       (set_num (a @ ''_diff'')
          (transform (\<lambda>s. fillna (Some 0) (diff s)) (map machine_id (rows df)) (map (\<lambda>r. num r a) (rows df)))
          (set_num (a @ ''_roll_std'')
             (transform (\<lambda>s. fillna (Some 0) (rolling WINDOW_SIZE std s)) (map machine_id (rows df))
                (map (\<lambda>r. num r a) (rows df)))
             (set_num (a @ ''_roll_mean'')
                (transform (rolling WINDOW_SIZE mean) (map machine_id (rows df))
                   (map (\<lambda>r. num r a) (rows df))) df)))
       cols = Inr out"
  by (auto simp: and_then_Inr_iff get_machine_id_def get_col_Inr_iff get_num_Inr_iff)

lemma add_features_char:
  assumes "add_features df cols = Inr out"
    and "set cols \<inter> set (feature_names cols) = {}"
  shows "same_keys (rows out) (rows df) \<and>
     (\<forall>n. n \<notin> set (feature_names cols) \<longrightarrow>
        map (\<lambda>r. num r n) (rows out) = map (\<lambda>r. num r n) (rows df)) \<and>
     (\<forall>c\<in>set cols.
        map (\<lambda>r. num r (c @ ''_roll_mean'')) (rows out)
          = transform (rolling WINDOW_SIZE mean) (map machine_id (rows df)) (map (\<lambda>r. num r c) (rows df)) \<and>
        map (\<lambda>r. num r (c @ ''_roll_std'')) (rows out)
          = transform (\<lambda>s. fillna (Some 0) (rolling WINDOW_SIZE std s)) (map machine_id (rows df))
              (map (\<lambda>r. num r c) (rows df)) \<and>
        map (\<lambda>r. num r (c @ ''_diff'')) (rows out)
          = transform (\<lambda>s. fillna (Some 0) (diff s)) (map machine_id (rows df))
              (map (\<lambda>r. num r c) (rows df)))"
  using assms
proof (induction cols arbitrary: df)
  case Nil
  then show ?case by (simp add: feature_names_def)
next
  case (Cons a cols)
  let ?ks = "map machine_id (rows df)"
  let ?M = "transform (rolling WINDOW_SIZE mean) ?ks (map (\<lambda>r. num r a) (rows df))"
  let ?S = "transform (\<lambda>s. fillna (Some 0) (rolling WINDOW_SIZE std s)) ?ks (map (\<lambda>r. num r a) (rows df))"
  let ?D = "transform (\<lambda>s. fillna (Some 0) (diff s)) ?ks (map (\<lambda>r. num r a) (rows df))"
  let ?d1 = "set_num (a @ ''_roll_mean'') ?M df"
  let ?d2 = "set_num (a @ ''_roll_std'') ?S ?d1"
  let ?d3 = "set_num (a @ ''_diff'') ?D ?d2"
  from Cons.prems(1) have rest: "add_features ?d3 cols = Inr out"
    by (simp only: add_features_Cons)
  have H: "set cols \<inter> set (feature_names cols) = {}"
    using Cons.prems(2) by (auto simp: in_feature_names)
  note ih = Cons.IH [OF rest H]
  have l1: "length ?M = length (rows df)" and l2: "length ?S = length (rows ?d1)"
    and l3: "length ?D = length (rows ?d2)" by simp_all
  have k3: "same_keys (rows ?d3) (rows df)"
    using same_keys_set_num [OF l3, of "a @ ''_diff''"] same_keys_set_num [OF l2, of "a @ ''_roll_std''"]
      same_keys_set_num [OF l1, of "a @ ''_roll_mean''"]
    by (blast intro: same_keys_trans)
  then have ks3: "map machine_id (rows ?d3) = ?ks" by (simp add: same_keys_def)
  have c3: "map (\<lambda>r. num r n) (rows ?d3) =
      (if n = a @ ''_diff'' then ?D else if n = a @ ''_roll_std'' then ?S
       else if n = a @ ''_roll_mean'' then ?M else map (\<lambda>r. num r n) (rows df))" for n
    using num_col_set_num [OF l3, of n "a @ ''_diff''"]
      num_col_set_num [OF l2, of n "a @ ''_roll_std''"]
      num_col_set_num [OF l1, of n "a @ ''_roll_mean''"] by simp
  have base: "map (\<lambda>r. num r c) (rows ?d3) = map (\<lambda>r. num r c) (rows df)"
    if "c \<in> set (a # cols)" for c
  proof -
    have "c \<notin> set (feature_names (a # cols))" using Cons.prems(2) that by blast
    then have "c \<noteq> a @ ''_diff''" "c \<noteq> a @ ''_roll_std''" "c \<noteq> a @ ''_roll_mean''"
      by (auto simp: in_feature_names)
    then show ?thesis by (simp add: c3)
  qed
  have sk: "same_keys (rows out) (rows df)" using ih k3 by (blast intro: same_keys_trans)
  have other: "map (\<lambda>r. num r n) (rows out) = map (\<lambda>r. num r n) (rows df)"
    if "n \<notin> set (feature_names (a # cols))" for n
  proof -
    from that have "n \<notin> set (feature_names cols)" "n \<noteq> a @ ''_diff''"
      "n \<noteq> a @ ''_roll_std''" "n \<noteq> a @ ''_roll_mean''"
      by (auto simp: in_feature_names)
    then show ?thesis using ih by (simp add: c3)
  qed
  have feat: "map (\<lambda>r. num r (c @ ''_roll_mean'')) (rows out)
          = transform (rolling WINDOW_SIZE mean) ?ks (map (\<lambda>r. num r c) (rows df)) \<and>
        map (\<lambda>r. num r (c @ ''_roll_std'')) (rows out)
          = transform (\<lambda>s. fillna (Some 0) (rolling WINDOW_SIZE std s)) ?ks (map (\<lambda>r. num r c) (rows df)) \<and>
        map (\<lambda>r. num r (c @ ''_diff'')) (rows out)
          = transform (\<lambda>s. fillna (Some 0) (diff s)) ?ks (map (\<lambda>r. num r c) (rows df))"
    if c: "c \<in> set (a # cols)" for c
  proof (cases "c \<in> set cols")
    case True
    then show ?thesis using ih base [OF c] ks3 by simp
  next
    case False
    then have ca: "c = a" using c by simp
    have "a @ ''_roll_mean'' \<notin> set (feature_names cols)" "a @ ''_roll_std'' \<notin> set (feature_names cols)"
      "a @ ''_diff'' \<notin> set (feature_names cols)"
      using False ca by (auto simp: in_feature_names)
    then have "map (\<lambda>r. num r (a @ ''_roll_mean'')) (rows out) = map (\<lambda>r. num r (a @ ''_roll_mean'')) (rows ?d3)"
      "map (\<lambda>r. num r (a @ ''_roll_std'')) (rows out) = map (\<lambda>r. num r (a @ ''_roll_std'')) (rows ?d3)"
      "map (\<lambda>r. num r (a @ ''_diff'')) (rows out) = map (\<lambda>r. num r (a @ ''_diff'')) (rows ?d3)"
      using ih by blast+
    then show ?thesis unfolding ca by (simp add: c3)
  qed
  show ?case using sk other feat by blast
qed

lemma add_features_ok:
  assumes "map_of (columns df) ''machine_id'' = Some Object"
    and "\<forall>c\<in>set cols. map_of (columns df) c = Some Float"
  shows "\<exists>out. add_features df cols = Inr out \<and>
     (\<forall>n. map_of (columns out) n =
        (if n \<in> set (feature_names cols) then Some Float else map_of (columns df) n))"
  using assms
proof (induction cols arbitrary: df)
  case Nil
  then show ?case by (simp add: feature_names_def)
next
  case (Cons a cols)
  let ?ks = "map machine_id (rows df)"
  let ?M = "transform (rolling WINDOW_SIZE mean) ?ks (map (\<lambda>r. num r a) (rows df))"
  let ?S = "transform (\<lambda>s. fillna (Some 0) (rolling WINDOW_SIZE std s)) ?ks (map (\<lambda>r. num r a) (rows df))"
  let ?D = "transform (\<lambda>s. fillna (Some 0) (diff s)) ?ks (map (\<lambda>r. num r a) (rows df))"
  let ?d3 = "set_num (a @ ''_diff'') ?D (set_num (a @ ''_roll_std'') ?S (set_num (a @ ''_roll_mean'') ?M df))"
  have m3: "map_of (columns ?d3) ''machine_id'' = Some Object" using Cons.prems(1) by simp
  have f3: "\<forall>c\<in>set cols. map_of (columns ?d3) c = Some Float" using Cons.prems(2) by simp
  obtain out where out: "add_features ?d3 cols = Inr out"
    and cs: "\<forall>n. map_of (columns out) n =
        (if n \<in> set (feature_names cols) then Some Float else map_of (columns ?d3) n)"
    using Cons.IH [OF m3 f3] by blast
  have "add_features df (a # cols) = Inr out"
    using out Cons.prems by (simp only: add_features_Cons) simp
  moreover have "\<forall>n. map_of (columns out) n =
        (if n \<in> set (feature_names (a # cols)) then Some Float else map_of (columns df) n)"
    using cs by (auto simp: in_feature_names)
  ultimately show ?case by blast
qed

lemma numeric_cols_no_feature_names: "set numeric_cols \<inter> set (feature_names numeric_cols) = {}"
  by (simp add: numeric_cols_def VALUE_RANGES_def feature_names_def)

lemma sort_values_ok:
  "has_sensor_schema df \<Longrightarrow>
   sort_values df = Inr (df\<lparr>rows := sort_key (\<lambda>r. (machine_id r, timestamp r)) (rows df)\<rparr>)"
  by (simp add: sort_values_Inr_iff has_sensor_schema_def)

text \<open>
  Claim C6. On a cleaned table (all required columns, no missing sensor value)
  \<open>engineer_features\<close> returns the table sorted by \<open>(machine_id, timestamp)\<close> with, for every
  sensor and every row, at position \<open>k\<close> of the row's partition \<open>p\<close>: the mean of the
  trailing window of \<open>WINDOW_SIZE = 10\<close> readings, which are the readings at the positions
  \<open>k - 9\<close> to \<open>k\<close> of the partition, or those from the partition's start where there are
  fewer (never none); the sample standard deviation of that window, 0 for a window of
  one reading; and the difference to the previous reading of the partition, 0 on the
  partition's first row. So no derived value is null.
\<close>

theorem engineer_features_spec:
  assumes "has_sensor_schema df"
    and "\<forall>r\<in>set (rows df). \<forall>c\<in>set numeric_cols. num r c \<noteq> None"
  shows "\<exists>out. engineer_features df = Inr out \<and>
      same_keys (rows out) (sort_key (\<lambda>r. (machine_id r, timestamp r)) (rows df)) \<and>
      (\<forall>c\<in>set numeric_cols. \<forall>i<length (rows df).
         (let srt = sort_key (\<lambda>r. (machine_id r, timestamp r)) (rows df);
              p = partition_of srt c i;
              k = position_in_partition srt i;
              w = trailing 10 p k
          in k < length p \<and> length w = min (Suc k) 10 \<and>
             num (rows out ! i) c = Some (p ! k) \<and>
             num (rows out ! i) (c @ ''_roll_mean'') = Some (sum_list w / real (length w)) \<and>
             num (rows out ! i) (c @ ''_roll_std'') = Some (if length w = 1 then 0 else sample_std w) \<and>
             num (rows out ! i) (c @ ''_diff'') = Some (if k = 0 then 0 else p ! k - p ! (k - 1))))"
proof -
  let ?srt = "sort_key (\<lambda>r. (machine_id r, timestamp r)) (rows df)"
  let ?d = "df\<lparr>rows := ?srt\<rparr>"
  have sv: "sort_values df = Inr ?d" using assms(1) by (rule sort_values_ok)
  have "map_of (columns ?d) ''machine_id'' = Some Object"
    and "\<forall>c\<in>set numeric_cols. map_of (columns ?d) c = Some Float"
    using assms(1) by (simp_all add: has_sensor_schema_def list_all_iff)
  then obtain out where af: "add_features ?d numeric_cols = Inr out"
    using add_features_ok by blast
  have out: "engineer_features df = Inr out" using sv af by (simp add: engineer_features_def)
  note ch = add_features_char [OF af numeric_cols_no_feature_names]
  have sk: "same_keys (rows out) ?srt" using ch by simp
  have len: "length (rows out) = length (rows df)" using same_keys_length [OF sk] by simp
  have nn: "\<forall>r\<in>set ?srt. num r c \<noteq> None" if "c \<in> set numeric_cols" for c
    using assms(2) that by simp
  have col: "num (rows out ! i) n = map (\<lambda>r. num r n) (rows out) ! i" if "i < length (rows df)" for i n
    using that len by simp
  have main: "let srt = ?srt; p = partition_of srt c i; k = position_in_partition srt i;
              w = trailing 10 p k
          in k < length p \<and> length w = min (Suc k) 10 \<and>
             num (rows out ! i) c = Some (p ! k) \<and>
             num (rows out ! i) (c @ ''_roll_mean'') = Some (sum_list w / real (length w)) \<and>
             num (rows out ! i) (c @ ''_roll_std'') = Some (if length w = 1 then 0 else sample_std w) \<and>
             num (rows out ! i) (c @ ''_diff'') = Some (if k = 0 then 0 else p ! k - p ! (k - 1))"
    if c: "c \<in> set numeric_cols" and i: "i < length (rows df)" for c i
  proof -
    let ?p = "partition_of ?srt c i" and ?k = "position_in_partition ?srt i"
    let ?w = "window WINDOW_SIZE ?p ?k"
    have isr: "i < length ?srt" using i by simp
    note tr = transform_rows_nth [OF isr nn [OF c]]
    have k: "?k < length ?p" by (rule tr(2))
    have weq: "trailing 10 ?p ?k = ?w"
      using window_eq_trailing [OF k, of WINDOW_SIZE] by (simp add: WINDOW_SIZE_def)
    have lw: "length ?w = min (Suc ?k) 10" using length_window [OF k] by (simp add: WINDOW_SIZE_def)
    have w1: "length ?w < 2 \<longleftrightarrow> length ?w = 1" using lw by auto
    have cn: "c \<notin> set (feature_names numeric_cols)"
      using numeric_cols_no_feature_names c by blast
    have "num (rows out ! i) c = num (?srt ! i) c" using ch cn col [OF i] isr by simp
    also have "\<dots> = Some (?p ! ?k)" using tr(3) nn [OF c] isr by (metis nth_mem option.collapse)
    finally have v: "num (rows out ! i) c = Some (?p ! ?k)" .
    have "num (rows out ! i) (c @ ''_roll_mean'') = rolling WINDOW_SIZE mean (map Some ?p) ! ?k"
      using ch c col [OF i] tr(1) [of "rolling WINDOW_SIZE mean"] by simp
    also have "\<dots> = Some (sum_list ?w / real (length ?w))"
      using rolling_mean_Some_nth(2) [OF k] by (simp add: WINDOW_SIZE_def)
    finally have m: "num (rows out ! i) (c @ ''_roll_mean'') = Some (sum_list ?w / real (length ?w))" .
    have "num (rows out ! i) (c @ ''_roll_std'')
        = fillna (Some 0) (rolling WINDOW_SIZE std (map Some ?p)) ! ?k"
      using ch c col [OF i] tr(1) [of "\<lambda>s. fillna (Some 0) (rolling WINDOW_SIZE std s)"] by simp
    also have "\<dots> = Some (if length ?w = 1 then 0 else sample_std ?w)"
      using rolling_std_Some_nth [OF k] w1 by simp
    finally have sd: "num (rows out ! i) (c @ ''_roll_std'')
        = Some (if length ?w = 1 then 0 else sample_std ?w)" .
    have "num (rows out ! i) (c @ ''_diff'') = fillna (Some 0) (diff (map Some ?p)) ! ?k"
      using ch c col [OF i] tr(1) [of "\<lambda>s. fillna (Some 0) (diff s)"] by simp
    also have "\<dots> = Some (if ?k = 0 then 0 else ?p ! ?k - ?p ! (?k - 1))"
      by (rule diff_Some_nth [OF k])
    finally have dd: "num (rows out ! i) (c @ ''_diff'')
        = Some (if ?k = 0 then 0 else ?p ! ?k - ?p ! (?k - 1))" .
    show ?thesis unfolding Let_def weq using k lw v m sd dd by (intro conjI)
  qed
  show ?thesis
    by (rule exI [of _ out]) (use out sk main in blast)
qed

lemma has_sensor_schema_long_example: "has_sensor_schema long_example"
  by (simp add: has_sensor_schema_def long_example_def sensor_columns_def numeric_cols_def
      VALUE_RANGES_def)

lemma sorted_long_example:
  "sort_key (\<lambda>r. (machine_id r, timestamp r)) (rows long_example)
     = map (\<lambda>t. reading t ''M1'' 0 (Some (real_of_int t))) [1, 2, 3, 4, 5, 6, 7, 8, 9, 10, 11, 12]
       @ [reading 1 ''M2'' 0 (Some 40)]"
  by (simp add: long_example_def reading_def)

lemma partition_long_example:
  assumes "i < 12"
  shows "partition_of (sort_key (\<lambda>r. (machine_id r, timestamp r)) (rows long_example))
           ''temperature_c'' i = [1, 2, 3, 4, 5, 6, 7, 8, 9, 10, 11, 12]"
    and "position_in_partition (sort_key (\<lambda>r. (machine_id r, timestamp r)) (rows long_example)) i = i"
proof -
  define g where "g = (\<lambda>t. reading t ''M1'' 0 (Some (real_of_int t)))"
  define ts :: "int list" where "ts = [1, 2, 3, 4, 5, 6, 7, 8, 9, 10, 11, 12]"
  define x where "x = reading 1 ''M2'' 0 (Some 40)"
  have srt: "sort_key (\<lambda>r. (machine_id r, timestamp r)) (rows long_example) = map g ts @ [x]"
    unfolding g_def ts_def x_def by (rule sorted_long_example)
  have lt: "length ts = 12" by (simp add: ts_def)
  have gm: "machine_id (g t) = ''M1''" for t by (simp add: g_def reading_def)
  have gn: "num (g t) ''temperature_c'' = Some (real_of_int t)" for t
    by (simp add: g_def reading_def numeric_cols_def VALUE_RANGES_def)
  have xm: "machine_id x = ''M2''" by (simp add: x_def reading_def)
  have mi: "machine_id ((map g ts @ [x]) ! i) = ''M1''"
    using assms lt by (simp add: nth_append gm)
  have fl: "filter (\<lambda>r. machine_id r = ''M1'') (map g ts @ [x]) = map g ts"
    by (simp add: xm filter_map comp_def gm)
  have vs: "map (\<lambda>r. num r ''temperature_c'') (map g ts) = map Some (map real_of_int ts)"
    by (simp add: gn)
  have "partition_of (map g ts @ [x]) ''temperature_c'' i = map real_of_int ts"
    unfolding partition_of_def mi fl vs by (rule dropna_map_Some)
  then show "partition_of (sort_key (\<lambda>r. (machine_id r, timestamp r)) (rows long_example))
           ''temperature_c'' i = [1, 2, 3, 4, 5, 6, 7, 8, 9, 10, 11, 12]"
    unfolding srt by (simp add: ts_def)
  have tk: "take i (map g ts @ [x]) = map g (take i ts)"
    using assms lt by (simp add: take_map)
  have "filter (\<lambda>r. machine_id r = ''M1'') (map g (take i ts)) = map g (take i ts)"
    by (simp add: filter_map comp_def gm)
  then have "length (filter (\<lambda>r. machine_id r = ''M1'') (take i (map g ts @ [x]))) = i"
    unfolding tk using assms lt by simp
  then show "position_in_partition (sort_key (\<lambda>r. (machine_id r, timestamp r)) (rows long_example)) i = i"
    unfolding srt position_in_partition_def mi .
qed

theorem engineer_features_spec_witness:
  "\<exists>out. engineer_features long_example = Inr out \<and>
     map (\<lambda>i. num (rows out ! i) ''temperature_c'') [0, 9, 10, 11] = [Some 1, Some 10, Some 11, Some 12] \<and>
     map (\<lambda>i. num (rows out ! i) ''temperature_c_roll_mean'') [0, 9, 10, 11]
       = [Some 1, Some (11 / 2), Some (13 / 2), Some (15 / 2)] \<and>
     num (rows out ! 0) ''temperature_c_roll_std'' = Some 0 \<and>
     num (rows out ! 1) ''temperature_c_roll_std'' = Some (sqrt (1 / 2)) \<and>
     map (\<lambda>i. num (rows out ! i) ''temperature_c_diff'') [0, 9, 10, 11] = [Some 0, Some 1, Some 1, Some 1]"
proof -
  have nn: "\<forall>r\<in>set (rows long_example). \<forall>c\<in>set numeric_cols. num r c \<noteq> None"
    by (simp add: long_example_def reading_def)
  have t: "''temperature_c'' \<in> set numeric_cols" by (simp add: numeric_cols_def VALUE_RANGES_def)
  have n: "length (rows long_example) = 13" by (simp add: long_example_def)
  obtain out where out: "engineer_features long_example = Inr out"
    and f: "\<forall>c\<in>set numeric_cols. \<forall>i<length (rows long_example).
         (let srt = sort_key (\<lambda>r. (machine_id r, timestamp r)) (rows long_example);
              p = partition_of srt c i;
              k = position_in_partition srt i;
              w = trailing 10 p k
          in k < length p \<and> length w = min (Suc k) 10 \<and>
             num (rows out ! i) c = Some (p ! k) \<and>
             num (rows out ! i) (c @ ''_roll_mean'') = Some (sum_list w / real (length w)) \<and>
             num (rows out ! i) (c @ ''_roll_std'') = Some (if length w = 1 then 0 else sample_std w) \<and>
             num (rows out ! i) (c @ ''_diff'') = Some (if k = 0 then 0 else p ! k - p ! (k - 1)))"
    using engineer_features_spec [OF has_sensor_schema_long_example nn] by blast
  note g = f [rule_format, OF t, unfolded n Let_def]
  have s2: "sample_std [1, 2] = sqrt (1 / 2)"
    by (simp add: sample_std_def power2_eq_square)
  have f0: "num (rows out ! 0) ''temperature_c'' = Some 1"
    "num (rows out ! 0) ''temperature_c_roll_mean'' = Some 1"
    "num (rows out ! 0) ''temperature_c_roll_std'' = Some 0"
    "num (rows out ! 0) ''temperature_c_diff'' = Some 0"
    using g [of 0] by (simp_all add: partition_long_example trailing_def)
  have f1: "num (rows out ! 1) ''temperature_c_roll_std'' = Some (sqrt (1 / 2))"
    using g [of 1] by (simp add: partition_long_example trailing_def s2)
  have f9: "num (rows out ! 9) ''temperature_c'' = Some 10"
    "num (rows out ! 9) ''temperature_c_roll_mean'' = Some (11 / 2)"
    "num (rows out ! 9) ''temperature_c_diff'' = Some 1"
    using g [of 9] by (simp_all add: partition_long_example trailing_def upt_rec)
  have f10: "num (rows out ! 10) ''temperature_c'' = Some 11"
    "num (rows out ! 10) ''temperature_c_roll_mean'' = Some (13 / 2)"
    "num (rows out ! 10) ''temperature_c_diff'' = Some 1"
    using g [of 10] by (simp_all add: partition_long_example trailing_def upt_rec)
  have f11: "num (rows out ! 11) ''temperature_c'' = Some 12"
    "num (rows out ! 11) ''temperature_c_roll_mean'' = Some (15 / 2)"
    "num (rows out ! 11) ''temperature_c_diff'' = Some 1"
    using g [of 11] by (simp_all add: partition_long_example trailing_def upt_rec)
  show ?thesis
    by (rule exI [of _ out]) (simp only: out f0 f1 f9 f10 f11 list.map simp_thms)
qed

subsection \<open>Derived columns that are never null\<close>

lemma fillna_Some_no_None: "None \<notin> set (fillna (Some c) xs)"
  by (auto simp: fillna_def split: option.splits)

lemma transform_no_None:
  assumes "length ks = length vs" and "\<And>g. length (f g) = length g" and "\<And>g. None \<notin> set (f g)"
  shows "None \<notin> set (transform f ks vs)"
proof
  assume "None \<in> set (transform f ks vs)"
  then obtain i where i: "i < length ks" "transform f ks vs ! i = None"
    by (auto simp: in_set_conv_nth)
  let ?g = "group_values ks vs (ks ! i)"
  have "length (filter (\<lambda>k. k = ks ! i) (take i ks)) < length (f ?g)"
    using group_values_rank(2) [OF assms(1) i(1)] assms(2) by simp
  then have "transform f ks vs ! i \<in> set (f ?g)" using i(1) by (simp add: transform_nth)
  then show False using i(2) assms(3) by metis
qed

lemma engineer_features_Inr:
  assumes "engineer_features df = Inr out"
  shows "add_features (df\<lparr>rows := sort_key (\<lambda>r. (machine_id r, timestamp r)) (rows df)\<rparr>) numeric_cols
      = Inr out"
  using assms by (auto simp: engineer_features_def and_then_Inr_iff sort_values_Inr_iff)

lemma engineer_features_std_diff_not_null:
  assumes "engineer_features df = Inr out" and "c \<in> set numeric_cols" and "r \<in> set (rows out)"
  shows "num r (c @ ''_roll_std'') \<noteq> None" and "num r (c @ ''_diff'') \<noteq> None"
proof -
  let ?d = "df\<lparr>rows := sort_key (\<lambda>r. (machine_id r, timestamp r)) (rows df)\<rparr>"
  note ch = add_features_char [OF engineer_features_Inr [OF assms(1)] numeric_cols_no_feature_names]
  let ?ks = "map machine_id (rows ?d)" and ?vs = "map (\<lambda>r. num r c) (rows ?d)"
  have "None \<notin> set (transform (\<lambda>s. fillna (Some 0) (rolling WINDOW_SIZE std s)) ?ks ?vs)"
    by (rule transform_no_None) (simp_all add: fillna_Some_no_None)
  then have "None \<notin> set (map (\<lambda>r. num r (c @ ''_roll_std'')) (rows out))"
    using ch assms(2) by simp
  then show "num r (c @ ''_roll_std'') \<noteq> None" using assms(3) by force
  have "None \<notin> set (transform (\<lambda>s. fillna (Some 0) (diff s)) ?ks ?vs)"
    by (rule transform_no_None) (simp_all add: fillna_Some_no_None)
  then have "None \<notin> set (map (\<lambda>r. num r (c @ ''_diff'')) (rows out))"
    using ch assms(2) by simp
  then show "num r (c @ ''_diff'') \<noteq> None" using assms(3) by force
qed

subsection \<open>No stage raises on a frame with the sensor schema\<close>

lemma engineer_features_ok:
  assumes "has_sensor_schema df"
  shows "\<exists>out. engineer_features df = Inr out \<and>
     (\<forall>n. map_of (columns out) n =
        (if n \<in> set (feature_names numeric_cols) then Some Float else map_of (columns df) n))"
proof -
  let ?d = "df\<lparr>rows := sort_key (\<lambda>r. (machine_id r, timestamp r)) (rows df)\<rparr>"
  have sv: "sort_values df = Inr ?d" using assms by (rule sort_values_ok)
  have "map_of (columns ?d) ''machine_id'' = Some Object"
    and "\<forall>c\<in>set numeric_cols. map_of (columns ?d) c = Some Float"
    using assms by (simp_all add: has_sensor_schema_def list_all_iff)
  from add_features_ok [OF this] obtain out where "add_features ?d numeric_cols = Inr out"
    and "\<forall>n. map_of (columns out) n =
        (if n \<in> set (feature_names numeric_cols) then Some Float else map_of (columns ?d) n)"
    by blast
  then show ?thesis using sv by (auto simp: engineer_features_def)
qed

lemma flag_zscore_anomalies_columns:
  "flag_zscore_anomalies df cols t = Inr df2 \<Longrightarrow>
   map_of (columns df2) = (map_of (columns df))(''anomaly_zscore'' \<mapsto> Bool)"
  by (auto simp: flag_zscore_anomalies_def Let_def split: sum.splits)

lemma SENSOR_COLS_names:
  "''machine_id'' \<notin> set SENSOR_COLS" "''anomaly_zscore'' \<notin> set SENSOR_COLS"
  "''anomaly_iqr'' \<notin> set SENSOR_COLS"
  "set SENSOR_COLS \<inter> set (map (\<lambda>c. c @ ''_zscore'') SENSOR_COLS) = {}"
  "set SENSOR_COLS \<subseteq> set numeric_cols"
  "set SENSOR_COLS \<inter> set (feature_names numeric_cols) = {}"
  "''machine_id'' \<notin> set (feature_names numeric_cols)"
  by (simp_all add: SENSOR_COLS_def numeric_cols_def VALUE_RANGES_def feature_names_def)

lemma run_anomaly_detection_ok:
  assumes "map_of (columns df) ''machine_id'' = Some Object"
    and "\<forall>c\<in>set SENSOR_COLS. map_of (columns df) c = Some Float"
  shows "\<exists>out. run_anomaly_detection agg df = Inr out"
proof -
  obtain d1 where d1: "compute_z_scores agg df SENSOR_COLS = Inr d1"
    using compute_z_scores_ok [OF assms SENSOR_COLS_names(4)] by blast
  note c1 = compute_z_scores_columns [OF d1]
  have "\<forall>c\<in>set SENSOR_COLS. map_of (columns d1) (c @ ''_zscore'') = Some Quotient"
    using c1 by simp
  then obtain d2 where d2: "flag_zscore_anomalies d1 SENSOR_COLS Z_THRESHOLD = Inr d2"
    using flag_zscore_anomalies_ok by blast
  note c2 = flag_zscore_anomalies_columns [OF d2]
  have s2: "\<forall>c\<in>set SENSOR_COLS. map_of (columns d2) c = Some Float"
  proof
    fix c assume c: "c \<in> set SENSOR_COLS"
    then have "c \<noteq> ''anomaly_zscore''" "c \<notin> set (map (\<lambda>c. c @ ''_zscore'') SENSOR_COLS)"
      using SENSOR_COLS_names(2,4) by blast+
    then show "map_of (columns d2) c = Some Float" using c1 [of c] c2 assms(2) c by simp
  qed
  obtain bounds where b: "compute_iqr_bounds d2 SENSOR_COLS IQR_MULTIPLIER = Inr bounds"
    and bc: "\<forall>c. bounds c = (if c \<in> set SENSOR_COLS
        then Some (tukey_bound (map (\<lambda>r. num r c) (rows d2)) IQR_MULTIPLIER) else None)"
    using iqr_bounds_loop_char [OF s2, of IQR_MULTIPLIER Map.empty]
    by (auto simp: compute_iqr_bounds_def)
  have "\<forall>c\<in>set SENSOR_COLS. map_of (columns d2) c = Some Float \<and> bounds c \<noteq> None"
    using s2 bc by simp
  from flag_iqr_anomalies_char [OF this] obtain d3 where
    d3: "flag_iqr_anomalies d2 bounds SENSOR_COLS = Inr d3"
    and c3: "map_of (columns d3) = (map_of (columns d2))(''anomaly_iqr'' \<mapsto> Bool)"
    by blast
  have "map_of (columns d3) ''anomaly_zscore'' = Some Bool"
    and "map_of (columns d3) ''anomaly_iqr'' = Some Bool"
    using c3 c2 by simp_all
  then obtain out where "combined_anomaly_score d3 = Inr out"
    by (auto simp: combined_anomaly_score_def get_flag_def get_col_ok)
  then show ?thesis using d1 d2 b d3 by (auto simp: run_anomaly_detection_def)
qed

lemma required_columns_eq:
  "{''timestamp'', ''machine_id'', ''label''} \<union> set (map fst VALUE_RANGES) = required_columns"
  by (auto simp: required_columns_def VALUE_RANGES_def)

lemma load_data_cases:
  "load_data fs p =
     (case fs p of
        None \<Rightarrow> Inl (FileNotFoundError p)
      | Some No_columns \<Rightarrow> Inl EmptyDataError
      | Some (Garbled s) \<Rightarrow> Inl (ParserError s)
      | Some (Table df) \<Rightarrow>
          if ''timestamp'' \<notin> set (map fst (columns df))
          then Inl (ValueError (Missing_parse_dates ''timestamp''))
          else if required_columns \<subseteq> set (map fst (columns df)) then Inr df
          else Inl (ValueError (Missing_columns (required_columns - set (map fst (columns df))))))"
  unfolding load_data_def read_csv_def Let_def required_columns_eq
  by (auto simp: map_of_eq_None_iff split: option.splits content.splits)

text \<open>
  Claim C8, as the code has it. \<open>load_data\<close> raises \<open>FileNotFoundError\<close> exactly when the
  file does not exist. On a file that parses to a table it raises a \<open>ValueError\<close> exactly
  when a required column is absent: the one of \<^verbatim>\<open>pd.read_csv\<close>, which names \<open>timestamp\<close>
  only, when \<open>timestamp\<close> is absent, and else its own, which names exactly the missing
  columns; it raises nothing else on such a file. And on a loaded table with at least one
  row, whose key and sensor columns have their dtypes, cleaning, feature engineering and
  the scoring all return: the whole chain of \<open>main\<close> returns a table.
\<close>

theorem pipeline_error_taxonomy:
  "(load_data fs p = Inl (FileNotFoundError q) \<longleftrightarrow> fs p = None \<and> q = p) \<and>
   (\<forall>t. fs p = Some (Table t) \<longrightarrow>
      ((\<exists>msg. load_data fs p = Inl (ValueError msg)) \<longleftrightarrow>
         \<not> required_columns \<subseteq> set (map fst (columns t))) \<and>
      (''timestamp'' \<notin> set (map fst (columns t)) \<longrightarrow>
         load_data fs p = Inl (ValueError (Missing_parse_dates ''timestamp''))) \<and>
      (''timestamp'' \<in> set (map fst (columns t)) \<longrightarrow>
         \<not> required_columns \<subseteq> set (map fst (columns t)) \<longrightarrow>
         load_data fs p
           = Inl (ValueError (Missing_columns (required_columns - set (map fst (columns t)))))) \<and>
      (required_columns \<subseteq> set (map fst (columns t)) \<longrightarrow> load_data fs p = Inr t)) \<and>
   (\<forall>df. load_data fs p = Inr df \<longrightarrow> has_sensor_schema df \<longrightarrow> rows df \<noteq> [] \<longrightarrow>
      (\<exists>c f out. clean_data df = Inr c \<and> engineer_features c = Inr f \<and>
         run_anomaly_detection agg f = Inr out \<and> main agg fs p = Inr out))"
proof (intro conjI allI impI)
  show "load_data fs p = Inl (FileNotFoundError q) \<longleftrightarrow> fs p = None \<and> q = p"
    by (auto simp: load_data_cases split: option.splits content.splits)
next
  fix t assume t: "fs p = Some (Table t)"
  have ts: "''timestamp'' \<in> required_columns" by (simp add: required_columns_def)
  show "(\<exists>msg. load_data fs p = Inl (ValueError msg)) \<longleftrightarrow>
         \<not> required_columns \<subseteq> set (map fst (columns t))"
    using ts by (auto simp: load_data_cases t)
  show "load_data fs p = Inl (ValueError (Missing_parse_dates ''timestamp''))"
    if "''timestamp'' \<notin> set (map fst (columns t))"
    using that by (simp add: load_data_cases t)
  show "load_data fs p
           = Inl (ValueError (Missing_columns (required_columns - set (map fst (columns t)))))"
    if "''timestamp'' \<in> set (map fst (columns t))"
      and "\<not> required_columns \<subseteq> set (map fst (columns t))"
    using that by (simp add: load_data_cases t)
  show "load_data fs p = Inr t" if "required_columns \<subseteq> set (map fst (columns t))"
    using that ts by (auto simp: load_data_cases t)
next
  fix df assume l: "load_data fs p = Inr df" and s: "has_sensor_schema df"
    and ne: "rows df \<noteq> []"
  obtain c where c: "clean_data df = Inr c" using clean_data_ok [OF s ne] by blast
  have sc: "has_sensor_schema c"
    using has_sensor_schema_cong [OF clean_data_char(2) [OF c]] s by simp
  obtain f where f: "engineer_features c = Inr f"
    and cf: "\<forall>n. map_of (columns f) n =
        (if n \<in> set (feature_names numeric_cols) then Some Float else map_of (columns c) n)"
    using engineer_features_ok [OF sc] by blast
  have "map_of (columns f) ''machine_id'' = Some Object"
    using cf sc SENSOR_COLS_names(7) by (simp add: has_sensor_schema_def)
  moreover have "\<forall>c\<in>set SENSOR_COLS. map_of (columns f) c = Some Float"
    using cf sc SENSOR_COLS_names(5,6) by (auto simp: has_sensor_schema_def list_all_iff)
  ultimately obtain out where out: "run_anomaly_detection agg f = Inr out"
    using run_anomaly_detection_ok by blast
  have "main agg fs p = Inr out" using l c f out by (simp add: main_def run_pipeline_def)
  with c f out show "\<exists>c f out. clean_data df = Inr c \<and> engineer_features c = Inr f \<and>
         run_anomaly_detection agg f = Inr out \<and> main agg fs p = Inr out" by blast
qed

theorem pipeline_error_taxonomy_witness:
  "(\<exists>out. main exact files_example ''data/raw_sensor_data.csv'' = Inr out) \<and>
   load_data files_example ''data/missing.csv'' = Inl (FileNotFoundError ''data/missing.csv'') \<and>
   load_data files_example ''data/broken.csv''
     = Inl (ValueError (Missing_columns {''label'', ''operating_hours''}))"
proof (intro conjI)
  have l: "load_data files_example ''data/raw_sensor_data.csv'' = Inr raw_example"
    by (simp add: load_data_cases files_example_def required_columns_def raw_example_def
        sensor_columns_def)
  note t1 = pipeline_error_taxonomy [of files_example "''data/raw_sensor_data.csv''" _ exact,
      THEN conjunct2, THEN conjunct2, rule_format, OF l has_sensor_schema_raw_example
      rows_raw_example]
  then obtain c :: frame and f :: frame and out
    where "main exact files_example ''data/raw_sensor_data.csv'' = Inr out"
    by (elim exE conjE)
  then show "\<exists>out. main exact files_example ''data/raw_sensor_data.csv'' = Inr out" by (rule exI)
  have n: "files_example ''data/missing.csv'' = None \<and> ''data/missing.csv'' = ''data/missing.csv''"
    by (simp add: files_example_def)
  show "load_data files_example ''data/missing.csv'' = Inl (FileNotFoundError ''data/missing.csv'')"
    using n by (rule pipeline_error_taxonomy [THEN conjunct1, THEN iffD2])
  let ?b = "\<lparr>columns = [(''timestamp'', Datetime), (''machine_id'', Object), (''temperature_c'', Float),
                    (''vibration_mm_s'', Float), (''pressure_bar'', Float), (''cycle_time_s'', Float)],
         rows = []\<rparr> :: frame"
  have f: "files_example ''data/broken.csv'' = Some (Table ?b)" by (simp add: files_example_def)
  have ts: "''timestamp'' \<in> set (map fst (columns ?b))" by simp
  have m: "required_columns - set (map fst (columns ?b)) = {''label'', ''operating_hours''}"
    by (simp add: required_columns_def insert_Diff_if)
  have ns: "\<not> required_columns \<subseteq> set (map fst (columns ?b))"
    by (simp add: required_columns_def)
  have "load_data files_example ''data/broken.csv''
      = Inl (ValueError (Missing_columns (required_columns - set (map fst (columns ?b)))))"
    using pipeline_error_taxonomy [of files_example "''data/broken.csv''", THEN conjunct2,
        THEN conjunct1, rule_format, OF f, THEN conjunct2, THEN conjunct2, THEN conjunct1,
        rule_format, OF ts ns] .
  then show "load_data files_example ''data/broken.csv''
     = Inl (ValueError (Missing_columns {''label'', ''operating_hours''}))"
    unfolding m .
qed

text \<open>
  Claim C8 as it is stated does not hold of the code. A file with the header line of all
  required columns and no record is loadable and schema-complete, and cleaning raises on
  it: the \<open>ValueError\<close> of \<^verbatim>\<open>pd.concat\<close>, a third kind of error, which \<open>main\<close> passes on. And a
  file that lacks \<open>timestamp\<close> and \<open>label\<close> does not get the error that names the missing
  columns, but the one of \<^verbatim>\<open>pd.read_csv\<close>, which names \<open>timestamp\<close> alone.
\<close>

theorem pipeline_error_taxonomy_counterexample:
  "load_data files_example ''data/header_only.csv'' = Inr header_only \<and>
   has_sensor_schema header_only \<and>
   required_columns \<subseteq> set (map fst (columns header_only)) \<and>
   clean_data header_only = Inl (ValueError No_objects_to_concatenate) \<and>
   main exact files_example ''data/header_only.csv'' = Inl (ValueError No_objects_to_concatenate) \<and>
   load_data files_example ''data/no_timestamp.csv''
     = Inl (ValueError (Missing_parse_dates ''timestamp''))"
proof -
  have h: "has_sensor_schema header_only"
    by (simp add: has_sensor_schema_def header_only_def sensor_columns_def numeric_cols_def
        VALUE_RANGES_def)
  have r: "required_columns \<subseteq> set (map fst (columns header_only))"
    by (simp add: required_columns_def header_only_def sensor_columns_def)
  have l: "load_data files_example ''data/header_only.csv'' = Inr header_only"
    using r by (simp add: load_data_cases files_example_def header_only_def sensor_columns_def)
  have c: "clean_data header_only = Inl (ValueError No_objects_to_concatenate)"
    using h by (rule clean_data_empty) (simp add: header_only_def)
  have m: "main exact files_example ''data/header_only.csv''
      = Inl (ValueError No_objects_to_concatenate)"
    using l c by (simp add: main_def run_pipeline_def)
  have n: "load_data files_example ''data/no_timestamp.csv''
     = Inl (ValueError (Missing_parse_dates ''timestamp''))"
    by (simp add: load_data_cases files_example_def)
  show ?thesis using l h r c m n by (intro conjI)
qed

subsection \<open>Procedures\<close>

lemma grows_refl [simp]: "grows s s"
  by (simp add: grows_def)

lemma take_length_eq_iff: "take (length a) b = a \<longleftrightarrow> (\<exists>c. b = a @ c)"
  by (metis append_eq_conv_conj append_take_drop_id)

lemma grows_iff:
  "grows s s' \<longleftrightarrow> (\<exists>os es. objects s' = objects s @ os \<and> events s' = events s @ es)"
  by (simp add: grows_def take_length_eq_iff)

lemma grows_trans: "grows s t \<Longrightarrow> grows t u \<Longrightarrow> grows s u"
  unfolding grows_iff by auto

lemma grows_nth: "grows s s' \<Longrightarrow> b < length (objects s) \<Longrightarrow> objects s' ! b = objects s ! b"
  unfolding grows_def by (metis nth_take)

lemma grows_length: "grows s s' \<Longrightarrow> length (objects s) \<le> length (objects s')"
  unfolding grows_def by (metis length_take min.cobounded1)

lemma for_each_in_place:
  "d < length (objects t) \<Longrightarrow>
   for_each xs (\<lambda>x. in_place (g x) d) t =
     (fst (run_steps g xs (objects t ! d)),
      t\<lparr>objects := (objects t)[d := snd (run_steps g xs (objects t ! d))]\<rparr>)"
proof (induction xs arbitrary: t)
  case Nil
  then show ?case by (simp add: return_def)
next
  case (Cons x xs)
  show ?case
  proof (cases "g x (objects t ! d)")
    case (Inl e)
    then show ?thesis by (simp add: bind_def in_place_def)
  next
    case (Inr df')
    let ?t' = "t\<lparr>objects := (objects t)[d := df']\<rparr>"
    have d': "d < length (objects ?t')" using Cons.prems by simp
    have "for_each (x # xs) (\<lambda>x. in_place (g x) d) t = for_each xs (\<lambda>x. in_place (g x) d) ?t'"
      using Inr by (simp add: bind_def in_place_def)
    also have "\<dots> = (fst (run_steps g xs (objects ?t' ! d)),
        ?t'\<lparr>objects := (objects ?t')[d := snd (run_steps g xs (objects ?t' ! d))]\<rparr>)"
      using Cons.IH [OF d'] .
    finally show ?thesis using Inr Cons.prems by simp
  qed
qed

lemma run_steps_zscore:
  "run_steps (zscore_step agg) cols df =
     (case compute_z_scores agg df cols of
        Inl e \<Rightarrow> (Inl e, snd (run_steps (zscore_step agg) cols df))
      | Inr r \<Rightarrow> (Inr (), r))"
proof (induction cols arbitrary: df)
  case Nil
  then show ?case by simp
next
  case (Cons c cols)
  show ?case
  proof (cases "zscore_column agg df c")
    case (Inl e)
    then have "zscore_step agg c df = Inl e" by (simp add: zscore_step_def)
    then show ?thesis using Inl by simp
  next
    case (Inr z)
    let ?df' = "set_score (c @ ''_zscore'') z df"
    have "zscore_step agg c df = Inr ?df'" using Inr by (simp add: zscore_step_def)
    then have e1: "run_steps (zscore_step agg) (c # cols) df = run_steps (zscore_step agg) cols ?df'"
      by simp
    have e2: "compute_z_scores agg df (c # cols) = compute_z_scores agg ?df' cols" using Inr by simp
    show ?thesis unfolding e1 e2 by (rule Cons.IH)
  qed
qed

lemma run_steps_clip:
  "run_steps clip_step rs df =
     (case clip_columns df rs of
        Inl e \<Rightarrow> (Inl e, snd (run_steps clip_step rs df))
      | Inr r \<Rightarrow> (Inr (), r))"
proof (induction rs arbitrary: df)
  case Nil
  then show ?case by simp
next
  case (Cons r rs)
  obtain col lo hi where r: "r = (col, lo, hi)" by (cases r)
  show ?case
  proof (cases "get_num df col")
    case (Inl e)
    then have "clip_step r df = Inl e" by (simp add: clip_step_def r)
    then show ?thesis using Inl by (simp add: r)
  next
    case (Inr vs)
    let ?df' = "set_num col (clip lo hi vs) df"
    have "clip_step r df = Inr ?df'" using Inr by (simp add: clip_step_def r)
    then have e1: "run_steps clip_step (r # rs) df = run_steps clip_step rs ?df'" by simp
    have e2: "clip_columns df (r # rs) = clip_columns ?df' rs" using Inr by (simp add: r)
    show ?thesis unfolding e1 e2 by (rule Cons.IH)
  qed
qed

lemma run_steps_feature:
  "run_steps feature_step cols df =
     (case add_features df cols of
        Inl e \<Rightarrow> (Inl e, snd (run_steps feature_step cols df))
      | Inr r \<Rightarrow> (Inr (), r))"
proof (induction cols arbitrary: df)
  case Nil
  then show ?case by simp
next
  case (Cons c cols)
  show ?case
  proof (cases "feature_step c df")
    case (Inl e)
    then have "add_features df (c # cols) = Inl e"
      by (auto simp: feature_step_def and_then_def split: sum.splits)
    then show ?thesis using Inl by simp
  next
    case (Inr df')
    then have e2: "add_features df (c # cols) = add_features df' cols"
      by (auto simp: feature_step_def and_then_def split: sum.splits)
    have e1: "run_steps feature_step (c # cols) df = run_steps feature_step cols df'"
      using Inr by simp
    show ?thesis unfolding e1 e2 by (rule Cons.IH)
  qed
qed

lemma run_steps_fst:
  "fst (run_steps (zscore_step agg) cols df) = map_sum id (\<lambda>_. ()) (compute_z_scores agg df cols)"
  "fst (run_steps clip_step rs df) = map_sum id (\<lambda>_. ()) (clip_columns df rs)"
  "fst (run_steps feature_step cols df) = map_sum id (\<lambda>_. ()) (add_features df cols)"
  by (subst run_steps_zscore run_steps_clip run_steps_feature, simp split: sum.splits)+

lemma run_steps_snd:
  "compute_z_scores agg df cols = Inr r \<Longrightarrow> snd (run_steps (zscore_step agg) cols df) = r"
  "clip_columns df rs = Inr r \<Longrightarrow> snd (run_steps clip_step rs df) = r"
  "add_features df cols = Inr r \<Longrightarrow> snd (run_steps feature_step cols df) = r"
  by (subst run_steps_zscore run_steps_clip run_steps_feature, simp)+

lemma map_sum_unit_iff [simp]:
  "map_sum id (\<lambda>_. ()) x = Inl e \<longleftrightarrow> x = Inl e"
  "map_sum id (\<lambda>_. ()) x = Inr u \<longleftrightarrow> (\<exists>r. x = Inr r)"
  by (cases x; simp)+

lemmas proc_defs =
  bind_def return_def copy_def in_place_def new_object_def read_object_def log_event_def
  len_def len_columns_def result_frame_def returns_new_def grows_def

lemma sum_flag_set_flag [simp]:
  "sum_flag c (set_flag c bs df) = Inr (length (filter id (map (\<lambda>r. flag r c) (rows (set_flag c bs df)))))"
  by (simp add: sum_flag_def get_flag_def get_col_def)

lemma combined_anomaly_score_proc_sound:
  "returns_new s (combined_anomaly_score_proc a s) (combined_anomaly_score (objects s ! a))"
  by (auto simp: combined_anomaly_score_proc_def proc_defs combined_anomaly_score_def and_then_def
      split: sum.splits)

lemma flag_zscore_anomalies_proc_sound:
  "returns_new s (flag_zscore_anomalies_proc a cols t s) (flag_zscore_anomalies (objects s ! a) cols t)"
  by (auto simp: flag_zscore_anomalies_proc_def proc_defs flag_zscore_anomalies_def Let_def
      split: sum.splits)

lemma flag_iqr_anomalies_proc_sound:
  "returns_new s (flag_iqr_anomalies_proc a bounds cols s)
     (flag_iqr_anomalies (objects s ! a) bounds cols)"
  by (auto simp: flag_iqr_anomalies_proc_def proc_defs flag_iqr_anomalies_def and_then_def
      split: sum.splits)

lemma compute_z_scores_proc_sound:
  "returns_new s (compute_z_scores_proc agg a cols s) (compute_z_scores agg (objects s ! a) cols)"
  by (auto simp: compute_z_scores_proc_def proc_defs for_each_in_place run_steps_fst run_steps_snd
      split: sum.splits)

lemma clean_data_proc_sound:
  "returns_new s (clean_data_proc a s) (clean_data (objects s ! a))"
  by (auto simp: clean_data_proc_def proc_defs for_each_in_place run_steps_fst run_steps_snd
      clean_data_def and_then_def split: sum.splits)

lemma engineer_features_proc_sound:
  "returns_new s (engineer_features_proc a s) (engineer_features (objects s ! a))"
  by (auto simp: engineer_features_proc_def proc_defs for_each_in_place run_steps_fst run_steps_snd
      engineer_features_def and_then_def nth_append split: sum.splits)

lemma iqr_bounds_loop_proc_sound:
  "fst (iqr_bounds_loop_proc a m cols b s) = iqr_bounds_loop (objects s ! a) m cols b \<and>
   objects (snd (iqr_bounds_loop_proc a m cols b s)) = objects s \<and>
   grows s (snd (iqr_bounds_loop_proc a m cols b s))"
proof (induction cols arbitrary: b s)
  case Nil
  then show ?case by (simp add: return_def)
next
  case (Cons c cols)
  show ?case
  proof (cases "get_num (objects s ! a) c")
    case (Inl e)
    then show ?thesis by (simp add: bind_def read_object_def)
  next
    case (Inr vs)
    let ?q1 = "quantile vs 0.25" and ?q3 = "quantile vs 0.75"
    let ?b = "\<lparr>lower = fsub ?q1 (fmul (Some m) (fsub ?q3 ?q1)),
               upper = fadd ?q3 (fmul (Some m) (fsub ?q3 ?q1))\<rparr>"
    let ?s1 = "s\<lparr>events := events s @ [Iqr_bounds c ?q1 ?q3 (fsub ?q3 ?q1) (lower ?b) (upper ?b)]\<rparr>"
    have e: "iqr_bounds_loop_proc a m (c # cols) b s = iqr_bounds_loop_proc a m cols (b(c \<mapsto> ?b)) ?s1"
      using Inr by (simp add: bind_def read_object_def log_event_def Let_def)
    have p: "iqr_bounds_loop (objects s ! a) m (c # cols) b
        = iqr_bounds_loop (objects ?s1 ! a) m cols (b(c \<mapsto> ?b))"
      using Inr by (simp add: Let_def)
    have g: "grows s ?s1" by (simp add: grows_def)
    note ih = Cons.IH [of "b(c \<mapsto> ?b)" ?s1]
    have o1: "objects ?s1 = objects s" by simp
    have 1: "fst (iqr_bounds_loop_proc a m cols (b(c \<mapsto> ?b)) ?s1)
        = iqr_bounds_loop (objects ?s1 ! a) m cols (b(c \<mapsto> ?b))"
      using ih by (rule conjunct1)
    have 2: "objects (snd (iqr_bounds_loop_proc a m cols (b(c \<mapsto> ?b)) ?s1)) = objects s"
      using ih [THEN conjunct2, THEN conjunct1] o1 by (rule trans)
    have 3: "grows s (snd (iqr_bounds_loop_proc a m cols (b(c \<mapsto> ?b)) ?s1))"
      using g ih [THEN conjunct2, THEN conjunct2] by (rule grows_trans)
    show ?thesis unfolding e p using 1 2 3 by (intro conjI)
  qed
qed

lemma returns_new_bind:
  assumes m: "returns_new s (m s) v"
    and f: "\<And>d s1. m s = (Inr d, s1) \<Longrightarrow> returns_new s1 (f d s1) (g (objects s1 ! d))"
  shows "returns_new s (bind m f s) (and_then v g)"
proof (cases "m s")
  case (Pair r s1)
  show ?thesis
  proof (cases r)
    case (Inl e)
    then show ?thesis using m Pair by (auto simp: bind_def returns_new_def result_frame_def)
  next
    case (Inr d)
    have v: "v = Inr (objects s1 ! d)" and g1: "grows s s1"
      using m Pair Inr by (simp_all add: returns_new_def result_frame_def)
    note r2 = f [of d s1, unfolded Pair Inr, OF refl]
    have b: "bind m f s = f d s1" using Pair Inr by (simp add: bind_def)
    have "grows s (snd (f d s1))" using g1 r2 by (auto simp: returns_new_def intro: grows_trans)
    moreover have "length (objects s) \<le> length (objects s1)" using g1 by (rule grows_length)
    ultimately show ?thesis using r2 unfolding b v
      by (auto simp: returns_new_def split: sum.splits)
  qed
qed

lemma iqr_stage_sound:
  "returns_new s
     (bind (compute_iqr_bounds_proc a cols m) (\<lambda>bounds. flag_iqr_anomalies_proc a bounds cols) s)
     (and_then (compute_iqr_bounds (objects s ! a) cols m)
        (\<lambda>bounds. flag_iqr_anomalies (objects s ! a) bounds cols))"
proof -
  let ?r = "compute_iqr_bounds_proc a cols m s"
  note l = iqr_bounds_loop_proc_sound [of a m cols Map.empty s, folded compute_iqr_bounds_proc_def
      compute_iqr_bounds_def]
  show ?thesis
  proof (cases "fst ?r")
    case (Inl e)
    then have "bind (compute_iqr_bounds_proc a cols m) (\<lambda>bounds. flag_iqr_anomalies_proc a bounds cols) s
        = (Inl e, snd ?r)"
      by (cases ?r) (simp add: bind_def)
    moreover have "compute_iqr_bounds (objects s ! a) cols m = Inl e" using l Inl by simp
    ultimately show ?thesis using l by (simp add: returns_new_def result_frame_def)
  next
    case (Inr bounds)
    then have b: "bind (compute_iqr_bounds_proc a cols m) (\<lambda>bounds. flag_iqr_anomalies_proc a bounds cols) s
        = flag_iqr_anomalies_proc a bounds cols (snd ?r)"
      by (cases ?r) (simp add: bind_def)
    have o: "objects (snd ?r) = objects s" using l by simp
    note f = flag_iqr_anomalies_proc_sound [of "snd ?r" a bounds cols]
    have "grows s (snd (flag_iqr_anomalies_proc a bounds cols (snd ?r)))"
      using l f by (auto simp: returns_new_def intro: grows_trans)
    moreover have pb: "compute_iqr_bounds (objects s ! a) cols m = Inr bounds" using l Inr by simp
    ultimately show ?thesis using f unfolding b
      by (auto simp: returns_new_def o pb split: sum.splits)
  qed
qed

lemma bind_assoc: "bind (bind m f) h = bind m (\<lambda>x. bind (f x) h)"
  by (auto simp: bind_def fun_eq_iff split: prod.splits sum.splits)

lemma and_then_assoc: "and_then (and_then v f) h = and_then v (\<lambda>x. and_then (f x) h)"
  by (cases v) simp_all

lemma run_anomaly_detection_proc_sound:
  "returns_new s (run_anomaly_detection_proc agg a s) (run_anomaly_detection agg (objects s ! a))"
  unfolding run_anomaly_detection_proc_def run_anomaly_detection_def
proof (intro returns_new_bind compute_z_scores_proc_sound flag_zscore_anomalies_proc_sound)
  fix d1 s1 d2 s2
  have "returns_new s2
     (bind (bind (compute_iqr_bounds_proc d2 SENSOR_COLS IQR_MULTIPLIER)
              (\<lambda>bounds. flag_iqr_anomalies_proc d2 bounds SENSOR_COLS)) combined_anomaly_score_proc s2)
     (and_then (and_then (compute_iqr_bounds (objects s2 ! d2) SENSOR_COLS IQR_MULTIPLIER)
        (\<lambda>bounds. flag_iqr_anomalies (objects s2 ! d2) bounds SENSOR_COLS)) combined_anomaly_score)"
    by (intro returns_new_bind iqr_stage_sound combined_anomaly_score_proc_sound)
  then show "returns_new s2
           (bind (compute_iqr_bounds_proc d2 SENSOR_COLS IQR_MULTIPLIER)
             (\<lambda>bounds.
                 bind (flag_iqr_anomalies_proc d2 bounds SENSOR_COLS) combined_anomaly_score_proc)
             s2)
           (and_then (compute_iqr_bounds (objects s2 ! d2) SENSOR_COLS IQR_MULTIPLIER)
             (\<lambda>bounds.
                 and_then (flag_iqr_anomalies (objects s2 ! d2) bounds SENSOR_COLS)
                  combined_anomaly_score))"
    by (simp only: bind_assoc and_then_assoc)
qed

lemma returns_new_works_on_copy:
  assumes "returns_new s (p s) v" and "a < length (objects s)"
  shows "works_on_copy a s p v"
proof (cases "p s")
  case (Pair r s')
  have g: "grows s s'" and rf: "result_frame (r, s') = v"
    and d: "case r of Inl e \<Rightarrow> True | Inr d \<Rightarrow> length (objects s) \<le> d \<and> d < length (objects s')"
    using assms(1) Pair by (auto simp: returns_new_def split: sum.splits)
  have "take (length (objects s)) (objects s') = objects s" using g by (simp add: grows_def)
  moreover have "objects s' ! a = objects s ! a" using g assms(2) by (rule grows_nth)
  moreover have "case r of Inl e \<Rightarrow> v = Inl e
      | Inr d \<Rightarrow> d \<noteq> a \<and> d < length (objects s') \<and> v = Inr (objects s' ! d)"
    using rf d assms(2) by (auto simp: result_frame_def split: sum.splits)
  ultimately show ?thesis using Pair by (simp add: works_on_copy_def)
qed

text \<open>
  Claim C10. None of \<open>clean_data\<close>, \<open>engineer_features\<close>, \<open>compute_z_scores\<close>,
  \<open>flag_zscore_anomalies\<close>, \<open>flag_iqr_anomalies\<close> and \<open>combined_anomaly_score\<close> changes the
  object it is given: each copies it first and changes only the copy (or the sorted frame
  made from the copy), so after the call, and also after a call that raised, the
  argument and every other object that existed hold the frames they held, and the
  object returned is a new one, holding the value of the stage.
\<close>

theorem stages_work_on_a_copy:
  assumes "a < length (objects s)"
  shows "works_on_copy a s (clean_data_proc a) (clean_data (objects s ! a)) \<and>
    works_on_copy a s (engineer_features_proc a) (engineer_features (objects s ! a)) \<and>
    works_on_copy a s (compute_z_scores_proc agg a cols) (compute_z_scores agg (objects s ! a) cols) \<and>
    works_on_copy a s (flag_zscore_anomalies_proc a cols threshold)
      (flag_zscore_anomalies (objects s ! a) cols threshold) \<and>
    works_on_copy a s (flag_iqr_anomalies_proc a bounds cols)
      (flag_iqr_anomalies (objects s ! a) bounds cols) \<and>
    works_on_copy a s (combined_anomaly_score_proc a) (combined_anomaly_score (objects s ! a))"
  using assms
  by (intro conjI returns_new_works_on_copy clean_data_proc_sound engineer_features_proc_sound
      compute_z_scores_proc_sound flag_zscore_anomalies_proc_sound flag_iqr_anomalies_proc_sound
      combined_anomaly_score_proc_sound)

theorem stages_work_on_a_copy_witness:
  "objects (snd (clean_data_proc 1 state_two)) ! 1 = cleaned_example \<and>
   objects (snd (clean_data_proc 1 state_two)) ! 0 = raw_example \<and>
   objects (snd (engineer_features_proc 0 state_one)) ! 0 = cleaned_example \<and>
   objects (snd (compute_z_scores_proc exact 0 SENSOR_COLS state_one)) ! 0 = cleaned_example"
proof -
  have 1: "(1::nat) < length (objects state_two)" and 0: "(0::nat) < length (objects state_one)"
    by (simp_all add: state_one_def state_two_def)
  have t: "take (length (objects state_two)) (objects (snd (clean_data_proc 1 state_two)))
        = objects state_two"
    and "objects (snd (clean_data_proc 1 state_two)) ! 1 = objects state_two ! 1"
    using stages_work_on_a_copy [OF 1, THEN conjunct1]
    by (simp_all add: works_on_copy_def split: prod.splits)
  moreover from t have "objects (snd (clean_data_proc 1 state_two)) ! 0 = objects state_two ! 0"
    by (metis 1 less_one nth_take order_less_trans)
  moreover have "objects (snd (engineer_features_proc 0 state_one)) ! 0 = objects state_one ! 0"
    using stages_work_on_a_copy [OF 0, THEN conjunct2, THEN conjunct1]
    by (simp add: works_on_copy_def split: prod.splits)
  moreover have "objects (snd (compute_z_scores_proc exact 0 SENSOR_COLS state_one)) ! 0 = objects state_one ! 0"
    using stages_work_on_a_copy [OF 0, THEN conjunct2, THEN conjunct2, THEN conjunct1, of exact SENSOR_COLS]
    by (simp add: works_on_copy_def split: prod.splits)
  ultimately show ?thesis by (simp add: state_one_def state_two_def)
qed


end
